theory Spec2Isabelle
  imports Complex_Main
begin

section \<open>Numbers\<close>

text \<open>
  A JavaScript number is an IEEE 754 binary64 value. Every finite one is a dyadic
  rational, so the finite numbers are modelled as \<^typ>\<open>rat\<close>; a sum, difference, product
  or quotient is the exact result rounded to binary64, to nearest, ties to even. The
  three values that are not finite (the two infinities and NaN) are modelled by one
  value, \<open>NotFinite\<close>: in the arithmetic modelled here they need not be told apart, because
  a sum, difference or product with an operand that is not finite is not finite, and so
  are the quotient of such a number by a finite one and every quotient by zero. Zero
  has no sign here (\<open>-0\<close> and \<open>0\<close> are the same number); the loop counters and array
  indices of the programs are integers far below \<open>2 ^ 53\<close>, where binary64 arithmetic is
  exact, and are modelled as natural numbers.
\<close>

type_synonym num = rat

datatype number = Finite num | NotFinite

subsection \<open>Rounding, arithmetic and typed-array stores\<close>

text \<open>
  A store into a \<open>Float32Array\<close> converts the number to IEEE 754 binary32, rounding to
  nearest, ties to even, and to an infinity when the rounded magnitude reaches \<open>2 ^ 128\<close>;
  a store into a \<open>Uint32Array\<close> takes an integer modulo \<open>2 ^ 32\<close>. The typed arrays and
  the arithmetic belong to the platform, not to the repository; the definitions below
  follow the language standard.
\<close>

text \<open>\<open>ilog2 n\<close> is the position of the leading bit of \<open>n \<ge> 1\<close>.\<close>

function ilog2 :: "int \<Rightarrow> nat" where
  "ilog2 n = (if n < 2 then 0 else Suc (ilog2 (n div 2)))"
  by pat_completeness auto
termination
  by (relation "measure nat") auto

declare ilog2.simps [simp del]

text \<open>\<open>pow2 e\<close> is \<open>2\<close> to the integer power \<open>e\<close>.\<close>

definition pow2 :: "int \<Rightarrow> num" where
  "pow2 e = (if 0 \<le> e then 2 ^ nat e else 1 / 2 ^ nat (- e))"

text \<open>For \<open>x > 0\<close>, \<open>binade x\<close> is the exponent \<open>e\<close> with \<open>2 ^ e \<le> x < 2 ^ (e + 1)\<close>.\<close>

definition binade :: "num \<Rightarrow> int" where
  "binade x = (if 1 \<le> x then int (ilog2 \<lfloor>x\<rfloor>)
               else - int (ilog2 (\<lceil>1 / x\<rceil> - 1)) - 1)"

definition round_half_even :: "num \<Rightarrow> int" where
  "round_half_even x =
     (if x - of_int \<lfloor>x\<rfloor> < 1 / 2 then \<lfloor>x\<rfloor>
      else if 1 / 2 < x - of_int \<lfloor>x\<rfloor> then \<lfloor>x\<rfloor> + 1
      else if even \<lfloor>x\<rfloor> then \<lfloor>x\<rfloor> else \<lfloor>x\<rfloor> + 1)"

text \<open>The exponent of the binary32 format is at least \<open>-126\<close> (below it the numbers are
  subnormal); the significand counts units of \<open>2 ^ (e - 23)\<close>.\<close>

definition f32_exponent :: "num \<Rightarrow> int" where
  "f32_exponent x = max (binade \<bar>x\<bar>) (- 126)"

definition f32_significand :: "num \<Rightarrow> int" where
  "f32_significand x = round_half_even (\<bar>x\<bar> / pow2 (f32_exponent x - 23))"

text \<open>\<open>x\<close> rounded to binary32, the exponent unbounded above (\<open>Math.fround\<close> where that is
  finite).\<close>

definition fround :: "num \<Rightarrow> num" where
  "fround x = (if x = 0 then 0
               else sgn x * of_int (f32_significand x) * pow2 (f32_exponent x - 23))"

text \<open>Rounding to nearest, ties to even, in the binary format with \<open>p\<close> fraction bits and
  least exponent \<open>emin\<close>, the exponent unbounded above: binary64 has \<open>p = 52\<close> and
  \<open>emin = -1022\<close>, binary32 has \<open>p = 23\<close> and \<open>emin = -126\<close>, where it is \<open>fround\<close>.\<close>

definition round_nearest :: "nat \<Rightarrow> int \<Rightarrow> num \<Rightarrow> num" where
  "round_nearest p emin x =
     sgn x * of_int (round_half_even (\<bar>x\<bar> / pow2 (max (binade \<bar>x\<bar>) emin - int p)))
       * pow2 (max (binade \<bar>x\<bar>) emin - int p)"

text \<open>A number of a binary format is finite when its exponent does not exceed the
  greatest exponent \<open>emax\<close> of the format (1023 for binary64, 127 for binary32), that is
  when its magnitude is below \<open>2 ^ (emax + 1)\<close>; a result that rounds to a greater
  magnitude is an infinity.\<close>

definition in_range :: "int \<Rightarrow> num \<Rightarrow> bool" where
  "in_range emax y = (y = 0 \<or> binade \<bar>y\<bar> \<le> emax)"

text \<open>The binary64 number nearest to \<open>x\<close>: the result of an arithmetic operation whose
  exact result is \<open>x\<close>.\<close>

definition to_binary64 :: "num \<Rightarrow> number" where
  "to_binary64 x =
     (if in_range 1023 (round_nearest 52 (- 1022) x) then Finite (round_nearest 52 (- 1022) x)
      else NotFinite)"

text \<open>\<open>a + b\<close>, \<open>a - b\<close>, \<open>a * b\<close>, and \<open>a / b\<close> for a finite \<open>b\<close>.\<close>

fun js_add :: "number \<Rightarrow> number \<Rightarrow> number" where
  "js_add (Finite x) (Finite y) = to_binary64 (x + y)"
| "js_add a b = NotFinite"

fun js_sub :: "number \<Rightarrow> number \<Rightarrow> number" where
  "js_sub (Finite x) (Finite y) = to_binary64 (x - y)"
| "js_sub a b = NotFinite"

fun js_mul :: "number \<Rightarrow> number \<Rightarrow> number" where
  "js_mul (Finite x) (Finite y) = to_binary64 (x * y)"
| "js_mul a b = NotFinite"

fun js_div :: "number \<Rightarrow> num \<Rightarrow> number" where
  "js_div (Finite x) y = (if y = 0 then NotFinite else to_binary64 (x / y))"
| "js_div NotFinite y = NotFinite"

text \<open>The number a \<open>Float32Array\<close> holds after a store of the number \<open>v\<close>.\<close>

fun Float32_store :: "number \<Rightarrow> number" where
  "Float32_store (Finite x) = (if in_range 127 (fround x) then Finite (fround x) else NotFinite)"
| "Float32_store NotFinite = NotFinite"

text \<open>The 32-bit word a \<open>Float32Array\<close> holds after a store of a number \<open>x\<close> that rounds
  to a finite binary32 number: sign, biased exponent, 23 significand bits; a significand
  rounded up to \<open>2 ^ 24\<close> carries into the exponent.\<close>

definition Float32_bits :: "num \<Rightarrow> int" where
  "Float32_bits x =
     (if x = 0 then 0
      else (if x < 0 then 2 ^ 31 else 0)
           + ((f32_exponent x + 127) * 2 ^ 23 + (f32_significand x - 2 ^ 23)))"

text \<open>The 32-bit word a \<open>Uint32Array\<close> holds after a store of the integer \<open>n\<close>.\<close>

definition Uint32_bits :: "int \<Rightarrow> int" where
  "Uint32_bits n = n mod 2 ^ 32"

section \<open>Spatial partition builder\<close>

text \<open>
  The demos call \<open>build_bsp_tree(drawingInfo, device, buffers)\<close>, but the function
  itself is not among the source files. The definitions of this section follow the
  description of the builder in the specification (sections 3, 4.1, 4.2 and 7).
\<close>

subsection \<open>Data model\<close>

type_synonym vec3 = "num \<times> num \<times> num"

datatype axis = AxisX | AxisY | AxisZ

fun coord :: "axis \<Rightarrow> vec3 \<Rightarrow> num" where
  "coord AxisX (x, y, z) = x"
| "coord AxisY (x, y, z) = y"
| "coord AxisZ (x, y, z) = z"

text \<open>Modelled from the spec: the triangle mesh of section 3, with vertex positions, index
  triples, optional per-vertex normals and per-triangle material indices.\<close>

record mesh =
  positions :: "vec3 list"
  indices :: "(nat \<times> nat \<times> nat) list"
  normals :: "vec3 list"
  mat_indices :: "nat list"

text \<open>Modelled from the spec: the axis-aligned bounding box of section 3, a min corner and
  a max corner.\<close>

record aabb =
  box_min :: vec3
  box_max :: vec3

text \<open>Modelled from the spec: the partition node of section 3. An internal node holds a
  split axis, a split position and two children; a leaf holds triangle indices. The one
  error of the builder is the malformed mesh of section 7.\<close>

datatype node = Leaf "nat list" | Internal axis num node node

datatype build_error = MalformedMesh

text \<open>Modelled from the spec: the invariant of the mesh in section 3, every index triple
  references valid positions.\<close>

definition valid_mesh :: "'a mesh_scheme \<Rightarrow> bool" where
  "valid_mesh m =
     list_all (\<lambda>(a, b, c). a < length (positions m) \<and> b < length (positions m)
                 \<and> c < length (positions m)) (indices m)"

subsection \<open>Bounding volume computer\<close>

text \<open>Modelled from the spec: the three vertex positions of triangle \<open>i\<close>, and the
  component-wise minimum and maximum by which a box grows to enclose a point.\<close>

definition tri_pts :: "'a mesh_scheme \<Rightarrow> nat \<Rightarrow> vec3 list" where
  "tri_pts m i =
     (case indices m ! i of (a, b, c) \<Rightarrow> [positions m ! a, positions m ! b, positions m ! c])"

definition vmin :: "vec3 \<Rightarrow> vec3 \<Rightarrow> vec3" where
  "vmin p q = (min (coord AxisX p) (coord AxisX q), min (coord AxisY p) (coord AxisY q),
               min (coord AxisZ p) (coord AxisZ q))"

definition vmax :: "vec3 \<Rightarrow> vec3 \<Rightarrow> vec3" where
  "vmax p q = (max (coord AxisX p) (coord AxisX q), max (coord AxisY p) (coord AxisY q),
               max (coord AxisZ p) (coord AxisZ q))"

definition grow :: "vec3 \<Rightarrow> aabb \<Rightarrow> aabb" where
  "grow p b = \<lparr>box_min = vmin (box_min b) p, box_max = vmax (box_max b) p\<rparr>"

text \<open>Modelled from the spec: \<open>computeAABB(triangleIndices, positions)\<close> of section 4.1,
  the tight box enclosing every vertex of every referenced triangle; the designated
  empty box of the empty set is \<open>None\<close>.\<close>

definition computeAABB :: "'a mesh_scheme \<Rightarrow> nat list \<Rightarrow> aabb option" where
  "computeAABB m ids =
     (case concat (map (tri_pts m) ids) of
        [] \<Rightarrow> None
      | p # ps \<Rightarrow> Some (fold grow ps \<lparr>box_min = p, box_max = p\<rparr>))"

text \<open>Modelled from the spec: the bounds of a triangle's own bounding box along an axis
  (section 4.2 step 4).\<close>

definition tri_min :: "'a mesh_scheme \<Rightarrow> axis \<Rightarrow> nat \<Rightarrow> num" where
  "tri_min m ax i =
     (case tri_pts m i of [p, q, r] \<Rightarrow> min (coord ax p) (min (coord ax q) (coord ax r)) | _ \<Rightarrow> 0)"

definition tri_max :: "'a mesh_scheme \<Rightarrow> axis \<Rightarrow> nat \<Rightarrow> num" where
  "tri_max m ax i =
     (case tri_pts m i of [p, q, r] \<Rightarrow> max (coord ax p) (max (coord ax q) (coord ax r)) | _ \<Rightarrow> 0)"

subsection \<open>Split selection and classification\<close>

text \<open>Modelled from the spec: the extent of a box along an axis.\<close>

definition extent :: "aabb \<Rightarrow> axis \<Rightarrow> num" where
  "extent b ax = coord ax (box_max b) - coord ax (box_min b)"

text \<open>Modelled from the spec: split-axis selection of section 4.2 step 2, the axis of
  greatest extent, exact ties preferring x, then y, then z.\<close>

definition split_axis :: "aabb \<Rightarrow> axis" where
  "split_axis b =
     (if extent b AxisY \<le> extent b AxisX \<and> extent b AxisZ \<le> extent b AxisX then AxisX
      else if extent b AxisZ \<le> extent b AxisY then AxisY
      else AxisZ)"

text \<open>Modelled from the spec: split-position selection of section 4.2 step 3, the midpoint
  of the chosen axis's extent.\<close>

definition split_pos :: "aabb \<Rightarrow> num" where
  "split_pos b = (coord (split_axis b) (box_min b) + coord (split_axis b) (box_max b)) / 2"

text \<open>Modelled from the spec: triangle classification of section 4.2 step 4. A triangle
  goes left if part of its box lies at or below the split position, right if part lies
  at or above it.\<close>

definition goes_left :: "'a mesh_scheme \<Rightarrow> axis \<Rightarrow> num \<Rightarrow> nat \<Rightarrow> bool" where
  "goes_left m ax pos i = (tri_min m ax i \<le> pos)"

definition goes_right :: "'a mesh_scheme \<Rightarrow> axis \<Rightarrow> num \<Rightarrow> nat \<Rightarrow> bool" where
  "goes_right m ax pos i = (pos \<le> tri_max m ax i)"

text \<open>Modelled from the spec: the triangle subsets of the two children, in the order of the
  input set.\<close>

definition left_ids :: "'a mesh_scheme \<Rightarrow> axis \<Rightarrow> num \<Rightarrow> nat list \<Rightarrow> nat list" where
  "left_ids m ax pos ids = filter (goes_left m ax pos) ids"

definition right_ids :: "'a mesh_scheme \<Rightarrow> axis \<Rightarrow> num \<Rightarrow> nat list \<Rightarrow> nat list" where
  "right_ids m ax pos ids = filter (goes_right m ax pos) ids"

subsection \<open>The recursive build\<close>

text \<open>Modelled from the spec: \<open>build(triangleIndices, boundingBox, depth)\<close> of section 4.2.
  The policy constants, the leaf threshold \<open>thr\<close> and the maximum depth \<open>maxd\<close>, are
  parameters. Step 1 is the termination policy, step 5 the degenerate-split guard, step 6
  the recursion into both children with their subsets and recomputed boxes. The empty
  box is never used for splitting.\<close>

function build :: "nat \<Rightarrow> nat \<Rightarrow> 'a mesh_scheme \<Rightarrow> nat list \<Rightarrow> aabb option \<Rightarrow> nat \<Rightarrow> node" where
  "build thr maxd m ids None depth = Leaf ids"
| "build thr maxd m ids (Some b) depth =
     (if length ids < thr \<or> maxd \<le> depth then Leaf ids
      else if left_ids m (split_axis b) (split_pos b) ids = ids
              \<or> right_ids m (split_axis b) (split_pos b) ids = ids then Leaf ids
      else Internal (split_axis b) (split_pos b)
             (build thr maxd m (left_ids m (split_axis b) (split_pos b) ids)
                (computeAABB m (left_ids m (split_axis b) (split_pos b) ids)) (Suc depth))
             (build thr maxd m (right_ids m (split_axis b) (split_pos b) ids)
                (computeAABB m (right_ids m (split_axis b) (split_pos b) ids)) (Suc depth)))"
  by pat_completeness auto
termination
  by (relation "measure (\<lambda>(thr, maxd, m, ids, box, depth). maxd - depth)") auto

text \<open>Modelled from the spec: the entry point. A malformed mesh aborts construction
  (section 7); otherwise the tree is built from all triangle indices and the whole-mesh
  box at depth 0. Flattening and upload are not part of this model.\<close>

definition build_bsp_tree :: "nat \<Rightarrow> nat \<Rightarrow> 'a mesh_scheme \<Rightarrow> build_error + node" where
  "build_bsp_tree thr maxd m =
     (if \<not> valid_mesh m then Inl MalformedMesh
      else Inr (build thr maxd m [0..<length (indices m)]
                  (computeAABB m [0..<length (indices m)]) 0))"

subsection \<open>Observations on trees\<close>

fun leaves :: "node \<Rightarrow> nat list list" where
  "leaves (Leaf xs) = [xs]"
| "leaves (Internal ax pos l r) = leaves l @ leaves r"

fun height :: "node \<Rightarrow> nat" where
  "height (Leaf xs) = 0"
| "height (Internal ax pos l r) = Suc (max (height l) (height r))"

definition in_some_leaf :: "nat \<Rightarrow> node \<Rightarrow> bool" where
  "in_some_leaf i t = (\<exists>xs \<in> set (leaves t). i \<in> set xs)"

subsection \<open>Properties of a built tree\<close>

text \<open>A triangle straddles a split plane when its box has a part at or below the plane
  and a part at or above it.\<close>

definition straddles :: "'a mesh_scheme \<Rightarrow> axis \<Rightarrow> num \<Rightarrow> nat \<Rightarrow> bool" where
  "straddles m ax pos i = (tri_min m ax i \<le> pos \<and> pos \<le> tri_max m ax i)"

text \<open>\<open>straddlers_in_both m ids t\<close> walks the tree \<open>t\<close> built for the triangle set
  \<open>ids\<close>, handing each child the subset the classification gives it, and checks at every
  internal node that each straddling triangle of the node's set is in a leaf of both
  children.\<close>

fun straddlers_in_both :: "'a mesh_scheme \<Rightarrow> nat list \<Rightarrow> node \<Rightarrow> bool" where
  "straddlers_in_both m ids (Leaf xs) = True"
| "straddlers_in_both m ids (Internal ax pos l r) =
     (list_all (\<lambda>i. straddles m ax pos i \<longrightarrow> in_some_leaf i l \<and> in_some_leaf i r) ids
      \<and> straddlers_in_both m (left_ids m ax pos ids) l
      \<and> straddlers_in_both m (right_ids m ax pos ids) r)"

text \<open>The tie-break order x, then y, then z.\<close>

fun axis_rank :: "axis \<Rightarrow> nat" where
  "axis_rank AxisX = 0"
| "axis_rank AxisY = 1"
| "axis_rank AxisZ = 2"

text \<open>\<open>ax\<close> is an axis of greatest extent of \<open>b\<close>, and every axis before it in the
  tie-break order has strictly smaller extent.\<close>

definition greatest_extent_axis :: "aabb \<Rightarrow> axis \<Rightarrow> bool" where
  "greatest_extent_axis b ax =
     (list_all (\<lambda>a. extent b a \<le> extent b ax) [AxisX, AxisY, AxisZ]
      \<and> list_all (\<lambda>a. axis_rank a < axis_rank ax \<longrightarrow> extent b a < extent b ax)
           [AxisX, AxisY, AxisZ])"

text \<open>\<open>splits_valid m ids box t\<close> walks the tree \<open>t\<close> built for the triangle set
  \<open>ids\<close> with bounding box \<open>box\<close>, handing each child its subset and recomputed box,
  and checks at every internal node the axis, the midpoint and that the split position is
  strictly inside the box along the axis.\<close>

fun splits_valid :: "'a mesh_scheme \<Rightarrow> nat list \<Rightarrow> aabb option \<Rightarrow> node \<Rightarrow> bool" where
  "splits_valid m ids box (Leaf xs) = True"
| "splits_valid m ids None (Internal ax pos l r) = False"
| "splits_valid m ids (Some b) (Internal ax pos l r) =
     (greatest_extent_axis b ax
      \<and> pos = (coord ax (box_min b) + coord ax (box_max b)) / 2
      \<and> coord ax (box_min b) < pos \<and> pos < coord ax (box_max b)
      \<and> splits_valid m (left_ids m ax pos ids) (computeAABB m (left_ids m ax pos ids)) l
      \<and> splits_valid m (right_ids m ax pos ids) (computeAABB m (right_ids m ax pos ids)) r)"

text \<open>A mesh of coincident triangles: every triangle has the vertex positions of
  triangle 0.\<close>

definition coincident :: "'a mesh_scheme \<Rightarrow> bool" where
  "coincident m = list_all (\<lambda>i. tri_pts m i = tri_pts m 0) [0..<length (indices m)]"

section \<open>The demos that consume the tree\<close>

text \<open>
  Nine demo programs call \<open>build_bsp_tree\<close>. Two source files hold several programs one
  after the other:
  \<^item> \<open>Part002\<close>: \<^verbatim>\<open>src/unnamed/part_002\<close>;
  \<^item> \<open>Project1\<close>, \<open>Project2\<close>: \<^verbatim>\<open>src/Project/source.js\<close>, lines 1-186 and 186-424;
  \<^item> \<open>W07p01\<close>: \<^verbatim>\<open>src/w07/w07p01.js\<close>;
  \<^item> \<open>Part007\<close>: \<^verbatim>\<open>src/unnamed/part_007\<close>;
  \<^item> \<open>W06p01\<close>: \<^verbatim>\<open>src/w06/w06p01.js\<close>;
  \<^item> \<open>W06p03_1\<close>, \<open>W06p03_2\<close>, \<open>W06p03_3\<close>: \<^verbatim>\<open>src/w06/w06p03.js\<close>, lines 1-211, 211-469
    and 469-726.
\<close>

datatype demo =
  Part002 | Project1 | Project2 | W07p01 | Part007 | W06p01 | W06p03_1 | W06p03_2 | W06p03_3

text \<open>The demos with a second, \<open>rgba32float\<close> colour attachment, a frame counter and a
  Progressive button.\<close>

fun progressive :: "demo \<Rightarrow> bool" where
  "progressive Part002 = False"
| "progressive Project1 = True"
| "progressive Project2 = True"
| "progressive W07p01 = True"
| "progressive Part007 = True"
| "progressive W06p01 = False"
| "progressive W06p03_1 = False"
| "progressive W06p03_2 = True"
| "progressive W06p03_3 = True"

text \<open>The demos whose \<open>animate\<close> begins with \<open>bindGroup = onReadComplete(device, pipeline)\<close>;
  the others call \<open>onReadComplete\<close> once, in \<open>main\<close>, before the first \<open>animate()\<close>.\<close>

fun rebuilds :: "demo \<Rightarrow> bool" where
  "rebuilds Part002 = True"
| "rebuilds Project1 = False"
| "rebuilds Project2 = False"
| "rebuilds W07p01 = True"
| "rebuilds Part007 = False"
| "rebuilds W06p01 = True"
| "rebuilds W06p03_1 = True"
| "rebuilds W06p03_2 = False"
| "rebuilds W06p03_3 = False"

text \<open>The demos that test the result of \<open>readOBJFile\<close> and return from \<open>main\<close> when it is
  null (\<open>if (!drawingInfo) { ...; return; }\<close>).\<close>

fun guarded :: "demo \<Rightarrow> bool" where
  "guarded Part002 = False"
| "guarded Project1 = False"
| "guarded Project2 = True"
| "guarded W07p01 = True"
| "guarded Part007 = True"
| "guarded W06p01 = True"
| "guarded W06p03_1 = True"
| "guarded W06p03_2 = True"
| "guarded W06p03_3 = True"

subsection \<open>Bind groups\<close>

datatype resource =
  UniformBuffer | UniformUIBuffer | Aabb | Attribs | Positions | Normals | Indices | Color
  | MatIndices | LightIndices | TreeIds | BspTree | BspPlanes | JitterBuffer | RenderDst | Env

text \<open>The \<open>entries\<close> of \<open>device.createBindGroup\<close> in \<open>onReadComplete\<close>: binding slot and
  resource, in the order written.\<close>

fun bindGroup_entries :: "demo \<Rightarrow> (nat \<times> resource) list" where
  "bindGroup_entries Part002 =
     [(0, UniformBuffer), (1, Aabb), (2, Attribs), (3, Indices), (4, Color),
      (5, LightIndices), (6, TreeIds), (7, BspTree), (8, BspPlanes)]"
| "bindGroup_entries Project1 =
     [(0, UniformBuffer), (1, UniformUIBuffer), (2, Aabb), (3, Attribs), (4, Indices),
      (5, Color), (6, LightIndices), (7, TreeIds), (8, BspTree), (9, BspPlanes),
      (11, RenderDst)]"
| "bindGroup_entries Project2 =
     [(0, UniformBuffer), (1, UniformUIBuffer), (2, Aabb), (3, Attribs), (4, Indices),
      (5, Color), (6, LightIndices), (7, TreeIds), (8, BspTree), (9, BspPlanes),
      (11, RenderDst)]"
| "bindGroup_entries W07p01 =
     [(0, UniformBuffer), (1, UniformUIBuffer), (2, Aabb), (3, Attribs), (4, Indices),
      (5, Color), (6, LightIndices), (7, TreeIds), (8, BspTree), (9, BspPlanes),
      (11, RenderDst)]"
| "bindGroup_entries Part007 =
     [(0, UniformBuffer), (1, UniformUIBuffer), (2, Aabb), (3, Attribs), (4, Indices),
      (5, Color), (6, LightIndices), (7, TreeIds), (8, BspTree), (9, BspPlanes),
      (11, RenderDst)]"
| "bindGroup_entries W06p01 =
     [(0, UniformBuffer), (1, Aabb), (2, Positions), (3, Indices), (4, Normals), (5, Color),
      (6, MatIndices), (7, TreeIds), (8, BspTree), (9, BspPlanes)]"
| "bindGroup_entries W06p03_1 =
     [(0, UniformBuffer), (1, Aabb), (2, Attribs), (3, Indices), (4, Color),
      (5, LightIndices), (6, TreeIds), (7, BspTree), (8, BspPlanes), (9, JitterBuffer)]"
| "bindGroup_entries W06p03_2 =
     [(0, UniformBuffer), (1, UniformUIBuffer), (2, Aabb), (3, Attribs), (4, Indices),
      (5, Color), (7, TreeIds), (8, BspTree), (9, BspPlanes), (11, RenderDst), (12, Env)]"
| "bindGroup_entries W06p03_3 =
     [(0, UniformBuffer), (1, UniformUIBuffer), (2, Aabb), (3, Attribs), (4, Indices),
      (5, Color), (7, TreeIds), (8, BspTree), (9, BspPlanes), (11, RenderDst), (12, Env)]"

text \<open>The resources of the binding convention (specification, section 6), in its order.\<close>

datatype role =
  CameraUniform | RootAABB | VertexAttributes | TriangleIndices | MaterialColors
  | MaterialIndexPerTriangle | LightTriangleIndices | LeafTriangleIds | NodeArray | PlaneArray

fun role_rank :: "role \<Rightarrow> nat" where
  "role_rank CameraUniform = 0"
| "role_rank RootAABB = 1"
| "role_rank VertexAttributes = 2"
| "role_rank TriangleIndices = 3"
| "role_rank MaterialColors = 4"
| "role_rank MaterialIndexPerTriangle = 5"
| "role_rank LightTriangleIndices = 6"
| "role_rank LeafTriangleIds = 7"
| "role_rank NodeArray = 8"
| "role_rank PlaneArray = 9"

text \<open>What each bound resource is in terms of the convention. Vertex positions, vertex
  normals and the interleaved attribute buffer are vertex attributes; the jitter buffer,
  the accumulation texture and the environment map are not part of the convention.\<close>

fun role_of :: "resource \<Rightarrow> role option" where
  "role_of UniformBuffer = Some CameraUniform"
| "role_of UniformUIBuffer = Some CameraUniform"
| "role_of Aabb = Some RootAABB"
| "role_of Attribs = Some VertexAttributes"
| "role_of Positions = Some VertexAttributes"
| "role_of Normals = Some VertexAttributes"
| "role_of Indices = Some TriangleIndices"
| "role_of Color = Some MaterialColors"
| "role_of MatIndices = Some MaterialIndexPerTriangle"
| "role_of LightIndices = Some LightTriangleIndices"
| "role_of TreeIds = Some LeafTriangleIds"
| "role_of BspTree = Some NodeArray"
| "role_of BspPlanes = Some PlaneArray"
| "role_of JitterBuffer = None"
| "role_of RenderDst = None"
| "role_of Env = None"

text \<open>The entries read by ascending slot number bind the convention's resources in the
  convention's order.\<close>

definition convention_order :: "(nat \<times> resource) list \<Rightarrow> bool" where
  "convention_order es =
     sorted (map role_rank (List.map_filter role_of (map snd (sort_key fst es))))"

subsection \<open>The material colour table\<close>

text \<open>The components of a colour are numbers, as the OBJ reader delivers them.\<close>

record rgba =
  red :: number
  green :: number
  blue :: number
  alpha :: number

record material =
  color :: rgba
  emission :: rgba

text \<open>Five demos push eight numbers for a material, its colour and then its emission; the
  four others push four, the sums of colour and emission, each sum rounded to binary64.\<close>

fun eight_floats :: "demo \<Rightarrow> bool" where
  "eight_floats Part002 = False"
| "eight_floats Project1 = True"
| "eight_floats Project2 = True"
| "eight_floats W07p01 = False"
| "eight_floats Part007 = True"
| "eight_floats W06p01 = False"
| "eight_floats W06p03_1 = False"
| "eight_floats W06p03_2 = True"
| "eight_floats W06p03_3 = True"

text \<open>The body of the loop over the materials: the \<open>matColors.push\<close> calls for one
  material.\<close>

definition push_material :: "demo \<Rightarrow> number list \<Rightarrow> material \<Rightarrow> number list" where
  "push_material d matColors mat =
     (if eight_floats d then
        matColors @ [red (color mat), green (color mat), blue (color mat), alpha (color mat),
                     red (emission mat), green (emission mat), blue (emission mat),
                     alpha (emission mat)]
      else
        matColors @ [js_add (red (color mat)) (red (emission mat)),
                     js_add (green (color mat)) (green (emission mat)),
                     js_add (blue (color mat)) (blue (emission mat)),
                     js_add (alpha (color mat)) (alpha (emission mat))])"

text \<open>\<open>for (let i = 0; i < materials.length; i++) { ... }\<close> starting from \<open>[]\<close>.\<close>

definition matColors :: "demo \<Rightarrow> material list \<Rightarrow> number list" where
  "matColors d materials = foldl (push_material d) [] materials"

text \<open>\<open>new Float32Array(matColors)\<close>, the data written to \<open>buffers.color\<close>.\<close>

definition color_table :: "demo \<Rightarrow> material list \<Rightarrow> number list" where
  "color_table d materials = map Float32_store (matColors d materials)"

text \<open>The number of floats of one record, and the record of one material.\<close>

definition record_len :: "demo \<Rightarrow> nat" where
  "record_len d = (if eight_floats d then 8 else 4)"

definition table_record :: "demo \<Rightarrow> number list \<Rightarrow> nat \<Rightarrow> number list" where
  "table_record d table i = take (record_len d) (drop (record_len d * i) table)"

subsection \<open>The run of a demo\<close>

text \<open>
  JavaScript runs one task to completion before the next: the rest of \<open>main\<close> after
  \<open>await readOBJFile(...)\<close>, then one event handler or animation-frame callback at a
  time. The state holds the variables of \<open>main\<close> that matter here and a log of
  the calls made to the builder and to the GPU.
\<close>

datatype loadop = Clear | Load

text \<open>\<open>BuildBspTree\<close>: a call of \<open>build_bsp_tree\<close> has returned. \<open>CreateBindGroup\<close>:
  \<open>device.createBindGroup\<close>. \<open>RenderPass lo g\<close>: one call of \<open>render()\<close>, a render pass
  with \<open>draw(4)\<close> encoded and submitted, where \<open>lo\<close> is the \<open>loadOp\<close> of the \<open>rgba32float\<close>
  attachment (if the demo has one) and \<open>g\<close> the value of \<open>bindGroup\<close> given to
  \<open>setBindGroup\<close> (\<open>None\<close>: undefined).\<close>

datatype cmd =
  BuildBspTree | CreateBindGroup | RenderPass "loadop option" "(nat \<times> resource) list option"

record demo_state =
  canvas_width :: int
  canvas_height :: int
  obj_loaded :: bool
  declared :: bool
  listening :: bool
  frame :: nat
  progressing :: bool
  pending :: nat
  bindGroup :: "(nat \<times> resource) list option"
  uniformUIBuffer :: "int list"
  gpu_log :: "cmd list"

text \<open>
  \<open>obj_loaded\<close>: \<open>readOBJFile\<close> resolved to a drawing info, not to null.
  \<open>declared\<close>: the \<open>const\<close> and \<open>let\<close> declarations of \<open>main\<close> after the \<open>await\<close> have run.
  \<open>listening\<close>: the click listener of the Progressive button is registered.
  \<open>pending\<close>: the number of \<open>requestAnimationFrame(animate)\<close> callbacks not yet run.
  \<open>uniformUIBuffer\<close>: the three 32-bit words of the 12-byte buffer. A \<open>Float32Array\<close> and a
  \<open>Uint32Array\<close> lay a word out in the same byte order, so two writes leave the same bytes
  exactly when they leave the same words.
\<close>

text \<open>The state when \<open>main\<close> waits for \<open>readOBJFile\<close>, on a canvas of \<open>w\<close> by \<open>h\<close> pixels.\<close>

definition boot :: "int \<Rightarrow> int \<Rightarrow> bool \<Rightarrow> demo_state" where
  "boot w h ok =
     \<lparr>canvas_width = w, canvas_height = h, obj_loaded = ok, declared = False,
      listening = False, frame = 0, progressing = True, pending = 0, bindGroup = None,
      uniformUIBuffer = [0, 0, 0], gpu_log = []\<rparr>"

text \<open>\<open>onReadComplete\<close> reads \<open>drawingInfo.materials.length\<close> first: a TypeError (\<open>None\<close>)
  when the drawing info is null. Otherwise it fills the colour and light buffers, calls
  \<open>build_bsp_tree\<close>, creates the bind group and returns it.\<close>

definition onReadComplete ::
  "demo \<Rightarrow> demo_state \<Rightarrow> ((nat \<times> resource) list \<times> demo_state) option" where
  "onReadComplete d s =
     (if \<not> obj_loaded s then None
      else Some (bindGroup_entries d, s\<lparr>gpu_log := gpu_log s @ [BuildBspTree, CreateBindGroup]\<rparr>))"

definition render :: "demo \<Rightarrow> demo_state \<Rightarrow> demo_state" where
  "render d s =
     s\<lparr>gpu_log := gpu_log s @
          [RenderPass (if progressive d then Some (if frame s = 0 then Clear else Load) else None)
             (bindGroup s)]\<rparr>"

text \<open>The tail of \<open>animate\<close> in the progressive demos:
  \<open>if (progressing) { frame++; uniformsUI = new Uint32Array([canvas.width, canvas.height,
  frame]); device.queue.writeBuffer(uniformUIBuffer, 0, uniformsUI);
  requestAnimationFrame(animate); }\<close>.\<close>

definition progress :: "demo_state \<Rightarrow> demo_state" where
  "progress s =
     (if progressing s then
        s\<lparr>frame := frame s + 1,
          uniformUIBuffer :=
            map Uint32_bits [canvas_width s, canvas_height s, int (frame s + 1)],
          pending := pending s + 1\<rparr>
      else s)"

text \<open>\<open>animate\<close>; \<open>None\<close> when \<open>onReadComplete\<close> throws, which it does before any effect.\<close>

definition animate :: "demo \<Rightarrow> demo_state \<Rightarrow> demo_state option" where
  "animate d s =
     (if rebuilds d then
        (case onReadComplete d s of
           None \<Rightarrow> None
         | Some (g, s1) \<Rightarrow>
             Some ((if progressive d then progress else id)
                     (render d (s1\<lparr>bindGroup := Some g\<rparr>))))
      else Some (progress (render d s)))"

text \<open>A task that throws ends there; the state is the one reached before the throw.\<close>

definition or_abort :: "demo_state \<Rightarrow> demo_state option \<Rightarrow> demo_state" where
  "or_abort s r = (case r of None \<Rightarrow> s | Some s' \<Rightarrow> s')"

text \<open>The part of \<open>main\<close> between the \<open>await\<close> and the first call of \<open>onReadComplete\<close> or
  \<open>animate\<close>. A progressive demo writes \<open>new Float32Array([canvas.width, canvas.height,
  frame])\<close> with \<open>frame = 0\<close> to the UI buffer and registers the click listener.\<close>

definition main_setup :: "demo \<Rightarrow> demo_state \<Rightarrow> demo_state" where
  "main_setup d s =
     (if progressive d then
        s\<lparr>declared := True, frame := 0, progressing := True,
          uniformUIBuffer :=
            map Float32_bits [of_int (canvas_width s), of_int (canvas_height s), 0],
          listening := True\<rparr>
      else s\<lparr>declared := True\<rparr>)"

text \<open>The rest of \<open>main\<close> once \<open>readOBJFile\<close> has resolved.\<close>

definition main_body :: "demo \<Rightarrow> demo_state \<Rightarrow> demo_state" where
  "main_body d s =
     (if guarded d \<and> \<not> obj_loaded s then s
      else if rebuilds d then or_abort (main_setup d s) (animate d (main_setup d s))
      else
        (case onReadComplete d (main_setup d s) of
           None \<Rightarrow> main_setup d s
         | Some (g, s1) \<Rightarrow>
             or_abort (s1\<lparr>bindGroup := Some g\<rparr>) (animate d (s1\<lparr>bindGroup := Some g\<rparr>))))"

text \<open>What can happen between tasks: an animation-frame callback runs, the Progressive
  button is clicked, the subdivision menu changes.\<close>

datatype event = AnimationFrame | ClickProgressive | ChangeSubdivs

text \<open>
  The click handler toggles \<open>progressing\<close> and calls \<open>animate()\<close> when it has become true.
  Only \<open>W06p03_1\<close> listens to the subdivision menu; its handler writes \<open>uniforms[3]\<close>
  first, a ReferenceError while \<open>uniforms\<close> is not yet declared, and ends with
  \<open>animate()\<close> (its writes of the uniform and jitter buffers are not tracked here).
\<close>

fun step :: "demo \<Rightarrow> event \<Rightarrow> demo_state \<Rightarrow> demo_state" where
  "step d AnimationFrame s =
     (if pending s = 0 then s
      else or_abort (s\<lparr>pending := pending s - 1\<rparr>) (animate d (s\<lparr>pending := pending s - 1\<rparr>)))"
| "step d ClickProgressive s =
     (if \<not> listening s then s
      else if progressing s then s\<lparr>progressing := False\<rparr>
      else or_abort (s\<lparr>progressing := True\<rparr>) (animate d (s\<lparr>progressing := True\<rparr>)))"
| "step d ChangeSubdivs s =
     (if d = W06p03_1 \<and> declared s then or_abort s (animate d s) else s)"

definition steps :: "demo \<Rightarrow> event list \<Rightarrow> demo_state \<Rightarrow> demo_state" where
  "steps d evs s = foldl (\<lambda>s e. step d e s) s evs"

text \<open>A run: the events \<open>pre\<close> arrive while \<open>main\<close> waits for the OBJ file, then the rest
  of \<open>main\<close> runs, then the events \<open>post\<close> arrive.\<close>

definition run :: "demo \<Rightarrow> int \<Rightarrow> int \<Rightarrow> bool \<Rightarrow> event list \<Rightarrow> event list \<Rightarrow> demo_state" where
  "run d w h ok pre post = steps d post (main_body d (steps d pre (boot w h ok)))"

text \<open>Reading the log in order: every render pass comes after a completed
  \<open>build_bsp_tree\<close> and is given a bind group.\<close>

fun draws_after_build :: "bool \<Rightarrow> cmd list \<Rightarrow> bool" where
  "draws_after_build built [] = True"
| "draws_after_build built (BuildBspTree # cs) = draws_after_build True cs"
| "draws_after_build built (CreateBindGroup # cs) = draws_after_build built cs"
| "draws_after_build built (RenderPass lo g # cs) =
     (built \<and> g \<noteq> None \<and> draws_after_build built cs)"

text \<open>The \<open>loadOp\<close>s of the accumulation attachment, pass by pass.\<close>

fun accum_ops :: "cmd list \<Rightarrow> loadop list" where
  "accum_ops [] = []"
| "accum_ops (RenderPass (Some lo) g # cs) = lo # accum_ops cs"
| "accum_ops (c # cs) = accum_ops cs"

text \<open>Cleared at most once, by the first pass; every later pass loads.\<close>

fun clear_once :: "loadop list \<Rightarrow> bool" where
  "clear_once [] = True"
| "clear_once (lo # los) = (lo = Clear \<and> list_all (\<lambda>x. x = Load) los)"

section \<open>computeJitters\<close>

text \<open>
  \<^verbatim>\<open>src/w06/w06p03.js\<close> (lines 76-90), \<^verbatim>\<open>src/w05/w05p01.js\<close> (lines 329-344) and
  \<^verbatim>\<open>src/unnamed/part_005\<close> (lines 194-208) hold the same function. The jitter array is a
  \<open>Float32Array\<close>: a store rounds to binary32, and a store past the end of the array is
  ignored, which is what \<open>xs[k := v]\<close> does. \<open>Math.random()\<close> is a stream \<open>rnd\<close> of finite
  numbers, read in order. \<open>pixelSize\<close> is a number, \<open>1 / canvas.height\<close> in every caller;
  \<open>subdivs\<close> is an integer (\<^verbatim>\<open>w06p03.js\<close> passes the menu's string, which every operation
  of the function converts to its number). Every arithmetic operation on numbers rounds
  to binary64.
  The state also records every assignment made, with the number assigned.
\<close>

record jitter_state =
  arr :: "number list"
  draws :: nat
  writes :: "(nat \<times> number) list"

text \<open>\<open>jitterArray[k] = v\<close>.\<close>

definition store :: "nat \<Rightarrow> number \<Rightarrow> jitter_state \<Rightarrow> jitter_state" where
  "store k v s = s\<lparr>arr := (arr s)[k := Float32_store v], writes := writes s @ [(k, v)]\<rparr>"

text \<open>\<open>(Math.random() + j) * step - pixelSize * 0.5\<close>, with \<open>r\<close> the number drawn and
  \<open>stepSize\<close> the value of \<open>step\<close>.\<close>

definition jitter_value :: "num \<Rightarrow> nat \<Rightarrow> number \<Rightarrow> number \<Rightarrow> number" where
  "jitter_value r j stepSize pixelSize =
     js_sub (js_mul (js_add (Finite r) (Finite (of_nat j))) stepSize)
       (js_mul pixelSize (Finite (1 / 2)))"

text \<open>The body of the inner loop, for row \<open>i\<close> and column \<open>j\<close>.\<close>

definition jitter_cell ::
  "(nat \<Rightarrow> num) \<Rightarrow> number \<Rightarrow> int \<Rightarrow> nat \<Rightarrow> nat \<Rightarrow> jitter_state \<Rightarrow> jitter_state" where
  "jitter_cell rnd pixelSize subdivs i j s =
     (let step = js_div pixelSize (of_int subdivs);
          idx = (i * nat subdivs + j) * 2;
          s1 = store idx (jitter_value (rnd (draws s)) j step pixelSize) s;
          s2 = store (idx + 1) (jitter_value (rnd (draws s + 1)) i step pixelSize) s1
      in s2\<lparr>draws := draws s + 2\<rparr>)"

definition computeJitters ::
  "(nat \<Rightarrow> num) \<Rightarrow> number list \<Rightarrow> number \<Rightarrow> int \<Rightarrow> jitter_state" where
  "computeJitters rnd jitter pixelSize subdivs =
     (if subdivs < 2 then
        store 1 (Finite 0) (store 0 (Finite 0) \<lparr>arr = jitter, draws = 0, writes = []\<rparr>)
      else
        fold (\<lambda>i. fold (jitter_cell rnd pixelSize subdivs i) [0..<nat subdivs])
          [0..<nat subdivs] \<lparr>arr = jitter, draws = 0, writes = []\<rparr>)"

text \<open>The number the loops assign to index \<open>k\<close>, with the \<open>k\<close>-th number drawn: index
  \<open>2 * (i * subdivs + j)\<close> takes the offset of column \<open>j\<close> and the next index the offset of
  row \<open>i\<close>.\<close>

definition jitter_entry :: "(nat \<Rightarrow> num) \<Rightarrow> number \<Rightarrow> int \<Rightarrow> nat \<Rightarrow> number" where
  "jitter_entry rnd pixelSize subdivs k =
     jitter_value (rnd k)
       (if even k then (k div 2) mod nat subdivs else (k div 2) div nat subdivs)
       (js_div pixelSize (of_int subdivs)) pixelSize"

text \<open>The greatest number the loops can assign: \<open>subdivs * step - pixelSize * 0.5\<close>, as
  binary64 arithmetic gives it. In exact arithmetic it is \<open>pixelSize / 2\<close>.\<close>

definition jitter_greatest :: "number \<Rightarrow> int \<Rightarrow> number" where
  "jitter_greatest pixelSize subdivs =
     js_sub (js_mul (Finite (of_int subdivs)) (js_div pixelSize (of_int subdivs)))
       (js_mul pixelSize (Finite (1 / 2)))"

section \<open>Invariants\<close>

text \<open>The invariants of the demo runs and of the jitter loops that the proofs below
  maintain.\<close>

definition build_inv :: "demo \<Rightarrow> demo_state \<Rightarrow> bool" where
  "build_inv d s =
     (draws_after_build False (gpu_log s)
      \<and> (bindGroup s \<noteq> None \<longrightarrow> BuildBspTree \<in> set (gpu_log s))
      \<and> (\<not> rebuilds d \<and> (listening s \<or> 0 < pending s) \<longrightarrow> bindGroup s \<noteq> None))"

definition accum_inv :: "demo_state \<Rightarrow> bool" where
  "accum_inv s =
     (clear_once (accum_ops (gpu_log s))
      \<and> (frame s = 0 \<longrightarrow> accum_ops (gpu_log s) = [] \<and> pending s = 0)
      \<and> (0 < frame s \<longrightarrow> accum_ops (gpu_log s) \<noteq> []))"

definition ui_inv :: "int \<Rightarrow> int \<Rightarrow> demo_state \<Rightarrow> bool" where
  "ui_inv w h s =
     (canvas_width s = w \<and> canvas_height s = h \<and> 0 < frame s
      \<and> uniformUIBuffer s = [Uint32_bits w, Uint32_bits h, Uint32_bits (int (frame s))])"

definition writes_inv ::
  "number list \<Rightarrow> (nat \<Rightarrow> number) \<Rightarrow> nat \<Rightarrow> jitter_state \<Rightarrow> bool" where
  "writes_inv a entry m s =
     (writes s = map (\<lambda>k. (k, entry k)) [0..<m] \<and> length (arr s) = length a
      \<and> (\<forall>k < length a. arr s ! k = (if k < m then Float32_store (entry k) else a ! k)))"

section \<open>Concrete inputs\<close>

text \<open>Two triangles in the plane \<open>z = 0\<close>, separated along x.\<close>

definition two_triangles :: "unit mesh_scheme" where
  "two_triangles =
     \<lparr>positions = [(0, 0, 0), (1, 0, 0), (0, 1, 0), (2, 0, 0), (3, 0, 0), (2, 1, 0)],
      indices = [(0, 1, 2), (3, 4, 5)], normals = [], mat_indices = [0, 0]\<rparr>"

text \<open>Three copies of one triangle.\<close>

definition three_coincident :: "unit mesh_scheme" where
  "three_coincident =
     \<lparr>positions = [(0, 0, 0), (1, 0, 0), (0, 1, 0)],
      indices = [(0, 1, 2), (0, 1, 2), (0, 1, 2)], normals = [], mat_indices = [0, 0, 0]\<rparr>"

text \<open>A red surface that does not emit, and a black surface that emits red.\<close>

definition red_diffuse :: material where
  "red_diffuse =
     \<lparr>color = \<lparr>red = Finite 1, green = Finite 0, blue = Finite 0, alpha = Finite 1\<rparr>,
      emission = \<lparr>red = Finite 0, green = Finite 0, blue = Finite 0, alpha = Finite 0\<rparr>\<rparr>"

definition red_emitter :: material where
  "red_emitter =
     \<lparr>color = \<lparr>red = Finite 0, green = Finite 0, blue = Finite 0, alpha = Finite 1\<rparr>,
      emission = \<lparr>red = Finite 1, green = Finite 0, blue = Finite 0, alpha = Finite 0\<rparr>\<rparr>"

text \<open>A surface whose red colour is \<open>1 + 2^-24\<close> and whose red emission is \<open>2^-80\<close>: the sum
  rounds to \<open>1 + 2^-24\<close> in binary64, and that to 1 in binary32.\<close>

definition faint_emitter :: material where
  "faint_emitter =
     \<lparr>color = \<lparr>red = Finite (1 + 1 / 2 ^ 24), green = Finite 0, blue = Finite 0,
               alpha = Finite 1\<rparr>,
      emission = \<lparr>red = Finite (1 / 2 ^ 80), green = Finite 0, blue = Finite 0,
                  alpha = Finite 0\<rparr>\<rparr>"
section \<open>Typed-array stores: known values\<close>

text \<open>
  The encodings of some numbers, as every implementation of binary32 gives them:
  \<open>1\<close> is \<open>0x3F800000\<close>, \<open>-2\<close> is \<open>0xC0000000\<close>, \<open>0.1\<close> rounds to \<open>0x3DCCCCCD\<close>,
  \<open>2^24 + 1\<close> is a tie and rounds to the even \<open>2^24\<close>, \<open>2^25 - 1\<close> rounds up into the next
  binade, \<open>2^-149\<close> is the least subnormal number and \<open>2^-150\<close> a tie that rounds to 0.
\<close>

lemma Float32_bits_examples:
  "Float32_bits 1 = 1065353216"
  "Float32_bits (- 2) = 3221225472"
  "Float32_bits (1 / 10) = 1036831949"
  "Float32_bits 16777217 = 1266679808"
  "Float32_bits 33554431 = 1275068416"
  "Float32_bits (pow2 (- 149)) = 1"
  "Float32_bits (pow2 (- 150)) = 0"
  by code_simp+

lemma fround_examples:
  "fround (1 / 10) = 13421773 / 134217728"
  "fround 16777217 = 16777216"
  "fround (1 / 2 - 1 / 2 ^ 31) = 1 / 2"
  by code_simp+

text \<open>
  In binary64 \<open>0.1\<close> is \<open>3602879701896397 / 2^55\<close>, and \<open>1 + (1 - 2^-53)\<close> is a tie that
  rounds to 2; a quotient by zero is not finite. The greatest binary32 number is
  \<open>2^128 - 2^104\<close>, and a number half a unit of the last place above it is stored as an
  infinity.
\<close>

lemma binary64_examples:
  "to_binary64 (1 / 10) = Finite (3602879701896397 / 2 ^ 55)"
  "js_add (Finite 1) (Finite (1 - 1 / 2 ^ 53)) = Finite 2"
  "js_div (Finite 1) 0 = NotFinite"
  "Float32_store (Finite (pow2 128 - pow2 104)) = Finite (pow2 128 - pow2 104)"
  "Float32_store (Finite (pow2 128 - pow2 103)) = NotFinite"
  by code_simp+

subsection \<open>Rounding to nearest\<close>

lemma round_half_even_range:
  assumes "of_int a \<le> x" and "x < of_int b"
  shows "a \<le> round_half_even x \<and> round_half_even x \<le> b"
proof -
  from assms have "a \<le> \<lfloor>x\<rfloor>" "\<lfloor>x\<rfloor> < b" by (simp_all add: le_floor_iff floor_less_iff)
  moreover have "round_half_even x = \<lfloor>x\<rfloor> \<or> round_half_even x = \<lfloor>x\<rfloor> + 1"
    by (auto simp: round_half_even_def)
  ultimately show ?thesis by auto
qed

lemma round_half_even_close: "\<bar>of_int (round_half_even x) - x\<bar> \<le> 1 / 2"
proof -
  have "of_int \<lfloor>x\<rfloor> \<le> x" "x < of_int \<lfloor>x\<rfloor> + 1" by linarith+
  then show ?thesis unfolding round_half_even_def by auto
qed

lemma pow2_shift: "pow2 (int e - 23) * 2 ^ 23 = 2 ^ e"
proof (cases "23 \<le> e")
  case True
  then have "e = (e - 23) + 23" by simp
  then have "(2::rat) ^ e = 2 ^ (e - 23) * 2 ^ 23" by (metis power_add)
  moreover from True have "pow2 (int e - 23) = 2 ^ (e - 23)"
    by (simp add: pow2_def nat_diff_distrib)
  ultimately show ?thesis by (simp only:)
next
  case False
  then have "23 = (23 - e) + e" by simp
  then have p: "(2::rat) ^ 23 = 2 ^ (23 - e) * 2 ^ e" by (metis power_add)
  from False have "pow2 (int e - 23) = 1 / 2 ^ (23 - e)"
    by (simp add: pow2_def nat_diff_distrib)
  then have "pow2 (int e - 23) * 2 ^ 23 = (1 / 2 ^ (23 - e)) * (2 ^ (23 - e) * 2 ^ e)"
    by (simp only: p)
  also have "\<dots> = 2 ^ e" by simp
  finally show ?thesis .
qed

lemma ilog2_bounds: "1 \<le> n \<Longrightarrow> 2 ^ ilog2 n \<le> n \<and> n < 2 ^ (ilog2 n + 1)"
proof (induction n rule: ilog2.induct)
  case (1 n)
  show ?case
  proof (cases "n < 2")
    case True
    with "1.prems" show ?thesis by (simp add: ilog2.simps)
  next
    case False
    then have "1 \<le> n div 2" by simp
    with "1.IH" False have "2 ^ ilog2 (n div 2) \<le> n div 2 \<and> n div 2 < 2 ^ (ilog2 (n div 2) + 1)"
      by simp
    moreover have "ilog2 n = Suc (ilog2 (n div 2))" using False by (simp add: ilog2.simps)
    ultimately show ?thesis by simp linarith
  qed
qed

lemma ilog2_unique:
  assumes "2 ^ k \<le> n" and "n < 2 ^ (k + 1)"
  shows "ilog2 n = k"
proof -
  have "(1::int) \<le> 2 ^ k" by simp
  with assms(1) have n1: "1 \<le> n" by linarith
  note b = ilog2_bounds [OF n1]
  from b assms(2) have "(2::int) ^ ilog2 n < 2 ^ (k + 1)" by linarith
  then have "ilog2 n < k + 1" by (rule power_less_imp_less_exp [rotated]) simp
  moreover from b assms(1) have "(2::int) ^ k < 2 ^ (ilog2 n + 1)" by linarith
  then have "k < ilog2 n + 1" by (rule power_less_imp_less_exp [rotated]) simp
  ultimately show ?thesis by simp
qed

text \<open>\<open>binade\<close> finds the power of two at or below a positive number, and \<open>fround\<close> moves a
  number by at most half a unit of its last place.\<close>

lemma pow2_pos: "0 < pow2 e"
  by (simp add: pow2_def)

lemma pow2_nat: "pow2 (int k) = 2 ^ k"
  by (simp add: pow2_def)

lemma pow2_neg_nat: "pow2 (- int k) = 1 / 2 ^ k"
  by (auto simp: pow2_def)

lemma binade_correct:
  assumes "0 < x"
  shows "pow2 (binade x) \<le> x \<and> x < pow2 (binade x + 1)"
proof (cases "1 \<le> x")
  case True
  then have f1: "1 \<le> \<lfloor>x\<rfloor>" by simp
  define e where "e = ilog2 \<lfloor>x\<rfloor>"
  from ilog2_bounds [OF f1] have b: "2 ^ e \<le> \<lfloor>x\<rfloor>" "\<lfloor>x\<rfloor> < 2 ^ (e + 1)" by (simp_all add: e_def)
  from b(1) have "(of_int (2 ^ e) :: rat) \<le> of_int \<lfloor>x\<rfloor>" by (simp only: of_int_le_iff)
  then have lo: "(2 :: rat) ^ e \<le> x" by (simp add: le_floor_iff)
  from b(2) have "\<lfloor>x\<rfloor> + 1 \<le> 2 ^ (e + 1)" by simp
  then have "(of_int (\<lfloor>x\<rfloor> + 1) :: rat) \<le> of_int (2 ^ (e + 1))" by (simp only: of_int_le_iff)
  moreover have "x < of_int (\<lfloor>x\<rfloor> + 1)" by simp linarith
  ultimately have hi: "x < (2 :: rat) ^ (e + 1)" by simp
  have "binade x = int e" using True by (simp add: binade_def e_def)
  moreover have "int e + 1 = int (Suc e)" by simp
  then have "pow2 (int e + 1) = 2 ^ Suc e" by (simp only: pow2_nat)
  ultimately show ?thesis using lo hi by (simp add: pow2_nat)
next
  case False
  with assms have x1: "x < 1" by simp
  define c where "c = \<lceil>1 / x\<rceil>"
  from assms x1 have "1 < 1 / x" by simp
  then have c2: "2 \<le> c" unfolding c_def by (simp add: le_ceiling_iff)
  define k where "k = ilog2 (c - 1)"
  from c2 have "1 \<le> c - 1" by simp
  from ilog2_bounds [OF this] have b: "2 ^ k \<le> c - 1" "c - 1 < 2 ^ (k + 1)" by (simp_all add: k_def)
  have cl: "of_int (c - 1) < 1 / x" "1 / x \<le> of_int c" unfolding c_def by linarith+
  from b(1) have "(of_int (2 ^ k) :: rat) \<le> of_int (c - 1)" by (simp only: of_int_le_iff)
  with cl(1) have "(2 :: rat) ^ k < 1 / x" by simp
  with assms have hi: "x < 1 / 2 ^ k" by (simp add: field_simps)
  from b(2) have "c \<le> 2 ^ (k + 1)" by simp
  then have "(of_int c :: rat) \<le> of_int (2 ^ (k + 1))" by (simp only: of_int_le_iff)
  with cl(2) have "1 / x \<le> (2 :: rat) ^ (k + 1)" by simp
  with assms have lo: "1 / 2 ^ (k + 1) \<le> x" by (simp add: field_simps)
  have be: "binade x = - int (k + 1)" using False by (simp add: binade_def k_def c_def)
  then have be1: "binade x + 1 = - int k" by simp
  have "pow2 (binade x) = 1 / 2 ^ (k + 1)" by (simp only: be pow2_neg_nat)
  moreover have "pow2 (binade x + 1) = 1 / 2 ^ k" by (simp only: be1 pow2_neg_nat)
  ultimately show ?thesis using lo hi by (simp only:)
qed

lemma fround_close:
  "\<bar>fround x - x\<bar> \<le> pow2 (f32_exponent x - 23) / 2"
proof (cases "x = 0")
  case True
  then show ?thesis using pow2_pos [of "f32_exponent x - 23"] by (simp add: fround_def)
next
  case False
  define u where "u = pow2 (f32_exponent x - 23)"
  have u: "0 < u" by (simp add: u_def pow2_pos)
  define q where "q = (of_int (f32_significand x) :: rat)"
  from round_half_even_close [of "\<bar>x\<bar> / u"]
  have "\<bar>q - \<bar>x\<bar> / u\<bar> \<le> 1 / 2" by (simp add: q_def f32_significand_def u_def)
  then have "\<bar>q - \<bar>x\<bar> / u\<bar> * u \<le> 1 / 2 * u" using u by (intro mult_right_mono) simp_all
  then have "\<bar>(q - \<bar>x\<bar> / u) * u\<bar> \<le> u / 2" using u by (simp add: abs_mult)
  moreover have "(q - \<bar>x\<bar> / u) * u = q * u - \<bar>x\<bar>" using u by (simp add: field_simps)
  ultimately have c: "\<bar>q * u - \<bar>x\<bar>\<bar> \<le> u / 2" by simp
  have f: "fround x = sgn x * q * u" using False by (simp add: fround_def q_def u_def)
  show ?thesis
  proof (cases "0 < x")
    case True
    with f have "fround x - x = q * u - \<bar>x\<bar>" by simp
    with c show ?thesis by (simp add: u_def)
  next
    case neg: False
    with False have "x < 0" by simp
    with f have "fround x - x = - (q * u - \<bar>x\<bar>)" by simp
    then have "\<bar>fround x - x\<bar> = \<bar>q * u - \<bar>x\<bar>\<bar>" by (simp only: abs_minus_cancel)
    with c show ?thesis by (simp add: u_def)
  qed
qed

subsection \<open>Monotonicity and fixed points of rounding\<close>

lemma fround_round_nearest: "fround x = round_nearest 23 (- 126) x"
  by (simp add: fround_def round_nearest_def f32_significand_def f32_exponent_def)

lemma pow2_powi: "pow2 e = 2 powi e"
  by (simp add: pow2_def power_int_def inverse_eq_divide power_one_over)

lemma pow2_add: "pow2 (a + b) = pow2 a * pow2 b"
  by (simp add: pow2_powi power_int_add)

lemma pow2_mono: "a \<le> b \<Longrightarrow> pow2 a \<le> pow2 b"
  by (simp add: pow2_powi power_int_increasing)

lemma pow2_less_imp: "pow2 a < pow2 b \<Longrightarrow> a < b"
proof (rule ccontr)
  assume "pow2 a < pow2 b" and "\<not> a < b"
  then have "b \<le> a" by simp
  from pow2_mono [OF this] \<open>pow2 a < pow2 b\<close> show False by simp
qed

lemma pow2_0: "pow2 0 = 1"
  by (simp add: pow2_def)

lemma round_half_even_of_int: "round_half_even (of_int k) = k"
  by (simp add: round_half_even_def)

lemma round_half_even_mono:
  assumes "x \<le> y"
  shows "round_half_even x \<le> round_half_even y"
proof (cases "\<lfloor>x\<rfloor> = \<lfloor>y\<rfloor>")
  case True
  from assms True have "x - of_int \<lfloor>x\<rfloor> \<le> y - of_int \<lfloor>y\<rfloor>" by simp
  with True show ?thesis unfolding round_half_even_def by auto
next
  case False
  with assms have "\<lfloor>x\<rfloor> < \<lfloor>y\<rfloor>" using floor_mono [OF assms] by linarith
  moreover have "round_half_even x \<le> \<lfloor>x\<rfloor> + 1" by (auto simp: round_half_even_def)
  moreover have "\<lfloor>y\<rfloor> \<le> round_half_even y" by (auto simp: round_half_even_def)
  ultimately show ?thesis by linarith
qed

lemma round_half_even_nonneg: "0 \<le> x \<Longrightarrow> 0 \<le> round_half_even x"
  using round_half_even_mono [of 0 x] round_half_even_of_int [of 0] by simp

lemma binade_unique:
  assumes "pow2 e \<le> x" and "x < pow2 (e + 1)"
  shows "binade x = e"
proof -
  from assms(1) pow2_pos [of e] have x: "0 < x" by linarith
  note b = binade_correct [OF x]
  from b assms have "pow2 (binade x) < pow2 (e + 1)" by linarith
  then have "binade x < e + 1" by (rule pow2_less_imp)
  moreover from b assms have "pow2 e < pow2 (binade x + 1)" by linarith
  then have "e < binade x + 1" by (rule pow2_less_imp)
  ultimately show ?thesis by simp
qed

lemma binade_mono:
  assumes "0 < x" and "x \<le> y"
  shows "binade x \<le> binade y"
proof -
  from assms have y: "0 < y" by simp
  from binade_correct [OF assms(1)] binade_correct [OF y] assms(2)
  have "pow2 (binade x) < pow2 (binade y + 1)" by linarith
  then have "binade x < binade y + 1" by (rule pow2_less_imp)
  then show ?thesis by simp
qed


lemma pow2_scale: "pow2 (e - int p) * 2 ^ p = pow2 e"
proof -
  have "pow2 e = pow2 ((e - int p) + int p)" by simp
  also have "\<dots> = pow2 (e - int p) * pow2 (int p)" by (rule pow2_add)
  finally show ?thesis by (simp add: pow2_nat)
qed

lemma pow2_scale_int: "of_int (2 ^ p) * pow2 (e - int p) = pow2 e"
  using pow2_scale [of e p] by (simp add: mult.commute)

lemma round_nearest_0: "round_nearest p emin 0 = 0"
  by (simp add: round_nearest_def)

lemma round_nearest_minus: "round_nearest p emin (- x) = - round_nearest p emin x"
  by (simp add: round_nearest_def sgn_minus)

lemma round_nearest_pos:
  "0 < x \<Longrightarrow> round_nearest p emin x
     = of_int (round_half_even (x / pow2 (max (binade x) emin - int p)))
         * pow2 (max (binade x) emin - int p)"
  by (simp add: round_nearest_def)

lemma round_nearest_nonneg:
  assumes "0 \<le> x"
  shows "0 \<le> round_nearest p emin x"
proof (cases "x = 0")
  case True
  then show ?thesis by (simp add: round_nearest_0)
next
  case False
  with assms have x: "0 < x" by simp
  let ?q = "pow2 (max (binade x) emin - int p)"
  have q: "0 < ?q" by (rule pow2_pos)
  with x have "0 \<le> x / ?q" by simp
  then have "0 \<le> round_half_even (x / ?q)" by (rule round_half_even_nonneg)
  with q show ?thesis by (simp add: round_nearest_pos [OF x])
qed

text \<open>A positive number rounds to at most the power of two above it, and, when its
  exponent is not below \<open>emin\<close>, to at least the power of two at or below it.\<close>

lemma round_nearest_upper:
  assumes x: "0 < x"
  shows "round_nearest p emin x \<le> pow2 (max (binade x) emin + 1)"
proof -
  let ?e = "max (binade x) emin"
  let ?q = "pow2 (?e - int p)"
  have q: "0 < ?q" by (rule pow2_pos)
  from binade_correct [OF x] have "x < pow2 (binade x + 1)" by simp
  also have "\<dots> \<le> pow2 (?e + 1)" by (rule pow2_mono) simp
  finally have "x < pow2 (?e + 1)" .
  also have "\<dots> = ?q * 2 ^ (p + 1)" using pow2_scale [of "?e + 1" "p + 1"] by simp
  finally have "x / ?q < 2 ^ (p + 1)" using q by (simp add: field_simps)
  then have "x / ?q \<le> of_int (2 ^ (p + 1))" by simp
  from round_half_even_mono [OF this]
  have "round_half_even (x / ?q) \<le> 2 ^ (p + 1)" by (simp only: round_half_even_of_int)
  then have "(of_int (round_half_even (x / ?q)) :: rat) \<le> of_int (2 ^ (p + 1))"
    by (simp only: of_int_le_iff)
  then have "of_int (round_half_even (x / ?q)) * ?q \<le> of_int (2 ^ (p + 1)) * ?q"
    using q by (intro mult_right_mono) simp_all
  also have "of_int (2 ^ (p + 1)) * ?q = pow2 (?e + 1)"
    using pow2_scale_int [of "p + 1" "?e + 1"] by simp
  finally show ?thesis by (simp only: round_nearest_pos [OF x])
qed

lemma round_nearest_lower:
  assumes x: "0 < x" and e: "emin \<le> binade x"
  shows "pow2 (binade x) \<le> round_nearest p emin x"
proof -
  from e have m: "max (binade x) emin = binade x" by simp
  let ?q = "pow2 (binade x - int p)"
  have q: "0 < ?q" by (rule pow2_pos)
  have "?q * 2 ^ p = pow2 (binade x)" by (rule pow2_scale)
  also from binade_correct [OF x] have "\<dots> \<le> x" by simp
  finally have "of_int (2 ^ p) \<le> x / ?q" using q by (simp add: field_simps)
  from round_half_even_mono [OF this]
  have "2 ^ p \<le> round_half_even (x / ?q)" by (simp only: round_half_even_of_int)
  then have "(of_int (2 ^ p) :: rat) \<le> of_int (round_half_even (x / ?q))"
    by (simp only: of_int_le_iff)
  then have "of_int (2 ^ p) * ?q \<le> of_int (round_half_even (x / ?q)) * ?q"
    using q by (intro mult_right_mono) simp_all
  moreover have "of_int (2 ^ p) * ?q = pow2 (binade x)" by (rule pow2_scale_int)
  ultimately show ?thesis by (simp only: round_nearest_pos [OF x] m)
qed

lemma round_nearest_mono_pos:
  assumes x: "0 < x" and xy: "x \<le> y"
  shows "round_nearest p emin x \<le> round_nearest p emin y"
proof -
  from x xy have y: "0 < y" by simp
  let ?ex = "max (binade x) emin" and ?ey = "max (binade y) emin"
  from binade_mono [OF x xy] have le: "?ex \<le> ?ey" by simp
  show ?thesis
  proof (cases "?ex = ?ey")
    case True
    let ?q = "pow2 (?ex - int p)"
    have q: "0 < ?q" by (rule pow2_pos)
    from xy q have "x / ?q \<le> y / ?q" by (simp add: divide_right_mono)
    from round_half_even_mono [OF this]
    have "(of_int (round_half_even (x / ?q)) :: rat) \<le> of_int (round_half_even (y / ?q))"
      by (simp only: of_int_le_iff)
    then have "of_int (round_half_even (x / ?q)) * ?q \<le> of_int (round_half_even (y / ?q)) * ?q"
      using q by (intro mult_right_mono) simp_all
    then show ?thesis by (simp only: round_nearest_pos [OF x] round_nearest_pos [OF y] True [symmetric])
  next
    case False
    with le have lt: "?ex < ?ey" by linarith
    then have ey: "emin \<le> binade y" "?ey = binade y" by (auto simp: max_def split: if_splits)
    have "round_nearest p emin x \<le> pow2 (?ex + 1)" by (rule round_nearest_upper [OF x])
    also from lt have "\<dots> \<le> pow2 ?ey" by (intro pow2_mono) linarith
    also have "\<dots> = pow2 (binade y)" by (simp only: ey(2))
    also have "\<dots> \<le> round_nearest p emin y" by (rule round_nearest_lower [OF y ey(1)])
    finally show ?thesis .
  qed
qed

lemma round_nearest_mono:
  assumes "x \<le> y"
  shows "round_nearest p emin x \<le> round_nearest p emin y"
proof (cases "0 < x")
  case True
  from round_nearest_mono_pos [OF True assms] show ?thesis .
next
  case False
  then have x: "x \<le> 0" by simp
  then have "0 \<le> round_nearest p emin (- x)" by (intro round_nearest_nonneg) simp
  then have rx: "round_nearest p emin x \<le> 0" by (simp add: round_nearest_minus)
  show ?thesis
  proof (cases "0 \<le> y")
    case True
    from round_nearest_nonneg [OF True, of p emin] rx show ?thesis by linarith
  next
    case False
    then have "0 < - y" "- y \<le> - x" using assms by simp_all
    from round_nearest_mono_pos [OF this] show ?thesis by (simp add: round_nearest_minus)
  qed
qed

lemma significand_range:
  assumes x: "0 < x"
  shows "0 \<le> round_half_even (x / pow2 (max (binade x) emin - int p))
       \<and> round_half_even (x / pow2 (max (binade x) emin - int p)) \<le> 2 ^ (p + 1)"
proof -
  let ?e = "max (binade x) emin"
  let ?q = "pow2 (?e - int p)"
  have q: "0 < ?q" by (rule pow2_pos)
  from binade_correct [OF x] have "x < pow2 (binade x + 1)" by simp
  also have "\<dots> \<le> pow2 (?e + 1)" by (rule pow2_mono) simp
  finally have "x < pow2 (?e + 1)" .
  also have "\<dots> = ?q * 2 ^ (p + 1)" using pow2_scale [of "?e + 1" "p + 1"] by simp
  finally have "x / ?q < 2 ^ (p + 1)" using q by (simp add: field_simps)
  then have "x / ?q \<le> of_int (2 ^ (p + 1))" by simp
  from round_half_even_mono [OF this]
  have "round_half_even (x / ?q) \<le> 2 ^ (p + 1)" by (simp only: round_half_even_of_int)
  moreover from x q have "0 \<le> x / ?q" by simp
  then have "0 \<le> round_half_even (x / ?q)" by (rule round_half_even_nonneg)
  ultimately show ?thesis by simp
qed

text \<open>The numbers of a format are the integer multiples \<open>M * 2 ^ (e - p)\<close> with
  \<open>emin \<le> e\<close> and \<open>\<bar>M\<bar> \<le> 2 ^ (p + 1)\<close>; rounding leaves them as they are, and every rounded
  number is one of them.\<close>

lemma round_nearest_grid:
  assumes "\<bar>x\<bar> = of_int K * pow2 (max (binade \<bar>x\<bar>) emin - int p)"
  shows "round_nearest p emin x = x"
proof -
  let ?q = "pow2 (max (binade \<bar>x\<bar>) emin - int p)"
  have q: "0 < ?q" by (rule pow2_pos)
  with assms have "\<bar>x\<bar> / ?q = of_int K" by (simp add: field_simps)
  then have "round_half_even (\<bar>x\<bar> / ?q) = K" by (simp only: round_half_even_of_int)
  then have "round_nearest p emin x = sgn x * (of_int K * ?q)"
    by (simp add: round_nearest_def)
  also have "\<dots> = sgn x * \<bar>x\<bar>" by (simp only: assms [symmetric])
  also have "\<dots> = x" by (simp add: sgn_mult_abs)
  finally show ?thesis .
qed

lemma round_nearest_representable:
  assumes e: "emin \<le> e" and M: "\<bar>M\<bar> \<le> 2 ^ (p + 1)"
  shows "round_nearest p emin (of_int M * pow2 (e - int p)) = of_int M * pow2 (e - int p)"
proof (cases "M = 0")
  case True
  then show ?thesis by (simp add: round_nearest_0)
next
  case False
  define x where "x = of_int M * pow2 (e - int p)"
  have q: "0 < pow2 (e - int p)" by (rule pow2_pos)
  have ax: "\<bar>x\<bar> = of_int \<bar>M\<bar> * pow2 (e - int p)"
    using q by (simp add: x_def abs_mult)
  from False have "1 \<le> \<bar>M\<bar>" by simp
  then have "(1::rat) \<le> of_int \<bar>M\<bar>" by (simp only: of_int_1_le_iff)
  with q have "1 * pow2 (e - int p) \<le> of_int \<bar>M\<bar> * pow2 (e - int p)"
    by (intro mult_right_mono) simp_all
  with q ax have pos: "0 < \<bar>x\<bar>" by linarith
  have "\<exists>K. \<bar>x\<bar> = of_int K * pow2 (max (binade \<bar>x\<bar>) emin - int p)"
  proof (cases "\<bar>M\<bar> = 2 ^ (p + 1)")
    case True
    with ax have "\<bar>x\<bar> = of_int (2 ^ (p + 1)) * pow2 ((e + 1) - int (p + 1))" by simp
    then have v: "\<bar>x\<bar> = pow2 (e + 1)" by (simp only: pow2_scale_int)
    have "pow2 (e + 1) < pow2 (e + 1 + 1)"
      by (simp add: pow2_powi power_int_strict_increasing)
    with v have "binade \<bar>x\<bar> = e + 1" by (intro binade_unique) simp_all
    with e have m: "max (binade \<bar>x\<bar>) emin = e + 1" by simp
    have "\<bar>x\<bar> = of_int (2 ^ p) * pow2 ((e + 1) - int p)" by (simp only: v pow2_scale_int)
    with m show ?thesis by metis
  next
    case False
    with M have "\<bar>M\<bar> < 2 ^ (p + 1)" by simp
    then have "(of_int \<bar>M\<bar> :: rat) < of_int (2 ^ (p + 1))" by (simp only: of_int_less_iff)
    then have "of_int \<bar>M\<bar> * pow2 (e - int p) < of_int (2 ^ (p + 1)) * pow2 ((e + 1) - int (p + 1))"
      using q by simp
    then have lt: "\<bar>x\<bar> < pow2 (e + 1)" by (simp only: ax pow2_scale_int)
    from binade_correct [OF pos] lt have "pow2 (binade \<bar>x\<bar>) < pow2 (e + 1)" by linarith
    then have "binade \<bar>x\<bar> < e + 1" by (rule pow2_less_imp)
    with e have le: "max (binade \<bar>x\<bar>) emin \<le> e" by simp
    define E where "E = max (binade \<bar>x\<bar>) emin"
    define d where "d = nat (e - E)"
    from le have "e - int p = (E - int p) + int d" by (simp add: E_def d_def)
    then have "pow2 (e - int p) = pow2 (E - int p) * 2 ^ d"
      by (simp only: pow2_add pow2_nat)
    with ax have "\<bar>x\<bar> = of_int (\<bar>M\<bar> * 2 ^ d) * pow2 (E - int p)" by simp
    then show ?thesis unfolding E_def by blast
  qed
  then obtain K where "\<bar>x\<bar> = of_int K * pow2 (max (binade \<bar>x\<bar>) emin - int p)" ..
  from round_nearest_grid [OF this] show ?thesis by (simp only: x_def)
qed

lemma round_nearest_idem:
  "round_nearest p emin (round_nearest p emin x) = round_nearest p emin x"
proof -
  have pos: "round_nearest p emin (round_nearest p emin y) = round_nearest p emin y"
    if y: "0 < y" for y
  proof -
    let ?M = "round_half_even (y / pow2 (max (binade y) emin - int p))"
    from significand_range [OF y, of emin p] have "\<bar>?M\<bar> \<le> 2 ^ (p + 1)" by simp
    moreover have "emin \<le> max (binade y) emin" by simp
    ultimately have "round_nearest p emin (of_int ?M * pow2 (max (binade y) emin - int p))
        = of_int ?M * pow2 (max (binade y) emin - int p)"
      by (rule round_nearest_representable [rotated])
    then show ?thesis by (simp only: round_nearest_pos [OF y])
  qed
  show ?thesis
  proof (cases "0 < x")
    case True
    then show ?thesis by (rule pos)
  next
    case False
    show ?thesis
    proof (cases "x = 0")
      case True
      then show ?thesis by (simp add: round_nearest_0)
    next
      case nz: False
      with False have "0 < - x" by simp
      from pos [OF this] show ?thesis by (simp add: round_nearest_minus)
    qed
  qed
qed

lemma round_nearest_of_nat:
  assumes "n \<le> 2 ^ (p + 1)" and "emin \<le> int p"
  shows "round_nearest p emin (of_nat n) = of_nat n"
proof -
  from assms(1) have "int n \<le> 2 ^ (p + 1)" by (metis of_nat_le_iff of_nat_numeral of_nat_power)
  then have "\<bar>int n\<bar> \<le> 2 ^ (p + 1)" by simp
  from round_nearest_representable [OF assms(2) this]
  show ?thesis by (simp add: pow2_0)
qed

text \<open>Rounding moves a number by at most half a unit of the last place, which is at
  most the fraction \<open>2 ^ -(p + 1)\<close> of the number when the number is not subnormal.\<close>

lemma round_nearest_close:
  "\<bar>round_nearest p emin x - x\<bar> \<le> pow2 (max (binade \<bar>x\<bar>) emin - int p) / 2"
proof -
  define u where "u = pow2 (max (binade \<bar>x\<bar>) emin - int p)"
  have u: "0 < u" by (simp add: u_def pow2_pos)
  define q where "q = (of_int (round_half_even (\<bar>x\<bar> / u)) :: rat)"
  from round_half_even_close [of "\<bar>x\<bar> / u"]
  have "\<bar>q - \<bar>x\<bar> / u\<bar> \<le> 1 / 2" by (simp add: q_def)
  then have "\<bar>q - \<bar>x\<bar> / u\<bar> * u \<le> 1 / 2 * u" using u by (intro mult_right_mono) simp_all
  then have "\<bar>(q - \<bar>x\<bar> / u) * u\<bar> \<le> u / 2" using u by (simp add: abs_mult)
  moreover have "(q - \<bar>x\<bar> / u) * u = q * u - \<bar>x\<bar>" using u by (simp add: field_simps)
  ultimately have c: "\<bar>q * u - \<bar>x\<bar>\<bar> \<le> u / 2" by simp
  have f: "round_nearest p emin x = sgn x * q * u" by (simp add: round_nearest_def q_def u_def)
  show ?thesis
  proof (cases "0 \<le> x")
    case True
    show ?thesis
    proof (cases "x = 0")
      case True
      with pow2_pos [of "max (binade \<bar>0\<bar>) emin - int p"] show ?thesis
        by (simp add: round_nearest_0 less_imp_le)
    next
      case False
      with True f have "round_nearest p emin x - x = q * u - \<bar>x\<bar>" by simp
      with c show ?thesis by (simp add: u_def)
    qed
  next
    case False
    then have "x < 0" by simp
    with f have "round_nearest p emin x - x = - (q * u - \<bar>x\<bar>)" by simp
    then have "\<bar>round_nearest p emin x - x\<bar> = \<bar>q * u - \<bar>x\<bar>\<bar>" by (simp only: abs_minus_cancel)
    with c show ?thesis by (simp add: u_def)
  qed
qed

lemma pow2_strict_mono: "a < b \<Longrightarrow> pow2 a < pow2 b"
  by (simp add: pow2_powi power_int_strict_increasing)

lemma round_nearest_relative:
  assumes "pow2 emin \<le> \<bar>x\<bar>"
  shows "\<bar>round_nearest p emin x - x\<bar> \<le> \<bar>x\<bar> / 2 ^ (p + 1)"
proof -
  from assms pow2_pos [of emin] have pos: "0 < \<bar>x\<bar>" by linarith
  note b = binade_correct [OF pos]
  from b assms have "pow2 emin < pow2 (binade \<bar>x\<bar> + 1)" by linarith
  then have "emin < binade \<bar>x\<bar> + 1" by (rule pow2_less_imp)
  then have m: "max (binade \<bar>x\<bar>) emin = binade \<bar>x\<bar>" by simp
  have "pow2 (binade \<bar>x\<bar> - int p) * 2 ^ p = pow2 (binade \<bar>x\<bar>)" by (rule pow2_scale)
  with b have "pow2 (binade \<bar>x\<bar> - int p) * 2 ^ p \<le> \<bar>x\<bar>" by simp
  then have "pow2 (binade \<bar>x\<bar> - int p) \<le> \<bar>x\<bar> / 2 ^ p" by (simp add: field_simps)
  then have "pow2 (binade \<bar>x\<bar> - int p) / 2 \<le> \<bar>x\<bar> / 2 ^ p / 2" by simp
  also have "\<bar>x\<bar> / 2 ^ p / 2 = \<bar>x\<bar> / 2 ^ (p + 1)" by simp
  finally show ?thesis using round_nearest_close [of p emin x] by (simp only: m)
qed

lemma round_nearest_pow2:
  assumes "emin \<le> e"
  shows "round_nearest p emin (pow2 e) = pow2 e"
proof -
  have "\<bar>(2::int) ^ p\<bar> \<le> 2 ^ (p + 1)" by simp
  from round_nearest_representable [OF assms this]
  show ?thesis by (simp only: pow2_scale_int)
qed

subsection \<open>Binary64 results\<close>

text \<open>A result is finite when its rounding is below \<open>2 ^ 1024\<close> in magnitude; a result
  between two finite results is finite and lies between them; finite results and the
  integers up to \<open>2 ^ 53\<close> are numbers of the format.\<close>

lemma in_range_iff: "in_range emax y \<longleftrightarrow> \<bar>y\<bar> < pow2 (emax + 1)"
proof (cases "y = 0")
  case True
  then show ?thesis by (simp add: in_range_def pow2_pos)
next
  case False
  then have pos: "0 < \<bar>y\<bar>" by simp
  note b = binade_correct [OF pos]
  show ?thesis
  proof
    assume "in_range emax y"
    with False have "binade \<bar>y\<bar> + 1 \<le> emax + 1" by (simp add: in_range_def)
    from pow2_mono [OF this] b show "\<bar>y\<bar> < pow2 (emax + 1)" by linarith
  next
    assume "\<bar>y\<bar> < pow2 (emax + 1)"
    with b have "pow2 (binade \<bar>y\<bar>) < pow2 (emax + 1)" by linarith
    then have "binade \<bar>y\<bar> < emax + 1" by (rule pow2_less_imp)
    then show "in_range emax y" by (simp add: in_range_def)
  qed
qed

lemma to_binary64_FiniteD:
  "to_binary64 x = Finite a \<Longrightarrow> round_nearest 52 (- 1022) x = a \<and> \<bar>a\<bar> < pow2 1024"
  by (auto simp: to_binary64_def in_range_iff split: if_splits)

lemma to_binary64_FiniteI:
  "\<bar>round_nearest 52 (- 1022) x\<bar> < pow2 1024 \<Longrightarrow>
     to_binary64 x = Finite (round_nearest 52 (- 1022) x)"
  by (simp add: to_binary64_def in_range_iff)

lemma to_binary64_between:
  assumes lo: "to_binary64 lo = Finite l" and hi: "to_binary64 hi = Finite u"
    and x: "lo \<le> x" "x \<le> hi"
  shows "\<exists>a. to_binary64 x = Finite a \<and> l \<le> a \<and> a \<le> u"
proof -
  let ?a = "round_nearest 52 (- 1022) x"
  from to_binary64_FiniteD [OF lo] to_binary64_FiniteD [OF hi]
  have l: "round_nearest 52 (- 1022) lo = l" "\<bar>l\<bar> < pow2 1024"
    and u: "round_nearest 52 (- 1022) hi = u" "\<bar>u\<bar> < pow2 1024"
    by simp_all
  from round_nearest_mono [OF x(1), of 52 "- 1022"] round_nearest_mono [OF x(2), of 52 "- 1022"]
  have b: "l \<le> ?a" "?a \<le> u" by (simp_all only: l(1) u(1))
  with l(2) u(2) have "\<bar>?a\<bar> < pow2 1024" by linarith
  then have "to_binary64 x = Finite ?a" by (rule to_binary64_FiniteI)
  with b show ?thesis by simp
qed

lemma to_binary64_idem:
  assumes "to_binary64 x = Finite a"
  shows "to_binary64 a = Finite a" and "to_binary64 (- a) = Finite (- a)"
proof -
  from to_binary64_FiniteD [OF assms]
  have a: "round_nearest 52 (- 1022) x = a" "\<bar>a\<bar> < pow2 1024" by simp_all
  from round_nearest_idem [of 52 "- 1022" x] have r: "round_nearest 52 (- 1022) a = a"
    by (simp only: a(1))
  from to_binary64_FiniteI [of a] a(2) show "to_binary64 a = Finite a" by (simp add: r)
  from to_binary64_FiniteI [of "- a"] a(2) show "to_binary64 (- a) = Finite (- a)"
    by (simp add: r round_nearest_minus)
qed

lemma to_binary64_of_nat:
  assumes "n \<le> 2 ^ 53"
  shows "to_binary64 (of_nat n) = Finite (of_nat n)"
proof -
  from assms have "n \<le> 2 ^ (52 + 1)" by simp
  then have r: "round_nearest 52 (- 1022) (of_nat n) = of_nat n"
    by (rule round_nearest_of_nat) simp
  from assms have "(of_nat n :: rat) \<le> of_nat (2 ^ 53)" by (simp only: of_nat_le_iff)
  also have "(of_nat (2 ^ 53) :: rat) = 2 ^ 53" by simp
  also have "(2 :: rat) ^ 53 < 2 ^ 1024" by (rule power_strict_increasing) simp_all
  also have "(2 :: rat) ^ 1024 = pow2 (int 1024)" by (simp only: pow2_nat)
  finally have "\<bar>of_nat n :: rat\<bar> < pow2 1024" by simp
  with to_binary64_FiniteI [of "of_nat n"] show ?thesis by (simp add: r)
qed

lemma to_binary64_0: "to_binary64 0 = Finite 0"
  using to_binary64_of_nat [of 0] by simp

lemma to_binary64_pow2:
  assumes "- 1022 \<le> e" and "e < 1024"
  shows "to_binary64 (pow2 e) = Finite (pow2 e)" and "to_binary64 (- pow2 e) = Finite (- pow2 e)"
proof -
  from assms(2) have "pow2 e < pow2 1024" by (rule pow2_strict_mono)
  with pow2_pos [of e] have "\<bar>pow2 e\<bar> < pow2 1024" by simp
  with to_binary64_FiniteI [of "pow2 e"] show a: "to_binary64 (pow2 e) = Finite (pow2 e)"
    by (simp add: round_nearest_pow2 [OF assms(1)])
  from to_binary64_idem(2) [OF a] show "to_binary64 (- pow2 e) = Finite (- pow2 e)" .
qed

text \<open>A result whose exact value lies between \<open>2 ^ -1022\<close> and \<open>2 ^ 1023\<close> in magnitude is
  finite and differs from the exact value by at most the fraction \<open>2 ^ -53\<close> of it.\<close>

lemma to_binary64_relative:
  assumes lo: "pow2 (- 1022) \<le> x" and hi: "x \<le> pow2 1023"
  shows "\<exists>a. to_binary64 x = Finite a \<and> x * (1 - 1 / 2 ^ 53) \<le> a \<and> a \<le> x * (1 + 1 / 2 ^ 53)"
proof -
  have "to_binary64 (pow2 (- 1022)) = Finite (pow2 (- 1022))"
    "to_binary64 (pow2 1023) = Finite (pow2 1023)"
    by (rule to_binary64_pow2; simp)+
  from to_binary64_between [OF this lo hi]
  obtain a where a: "to_binary64 x = Finite a" by auto
  from to_binary64_FiniteD [OF a] have r: "round_nearest 52 (- 1022) x = a" by simp
  from lo pow2_pos [of "- 1022"] have x: "0 < x" by linarith
  with lo have "pow2 (- 1022) \<le> \<bar>x\<bar>" by simp
  from round_nearest_relative [OF this, of 52] x
  have "\<bar>a - x\<bar> \<le> x / 2 ^ 53" by (simp add: r)
  then have "x - x / 2 ^ 53 \<le> a" "a \<le> x + x / 2 ^ 53" by linarith+
  then have "x * (1 - 1 / 2 ^ 53) \<le> a \<and> a \<le> x * (1 + 1 / 2 ^ 53)"
    by (simp add: algebra_simps)
  with a show ?thesis by blast
qed

text \<open>The product \<open>2^1023 * 2\<close> overflows.\<close>

lemma binary64_overflow: "js_mul (Finite (pow2 1023)) (Finite 2) = NotFinite"
proof -
  have "pow2 1023 * 2 = pow2 1024" using pow2_scale [of 1024 1] by simp
  moreover have "round_nearest 52 (- 1022) (pow2 1024) = pow2 1024"
    by (rule round_nearest_pow2) simp
  moreover have "\<not> in_range 1023 (pow2 1024)" by (simp add: in_range_iff)
  ultimately show ?thesis by (simp add: to_binary64_def)
qed
section \<open>The builder: supporting lemmas\<close>

lemma tri_pts_three: "\<exists>p q r. tri_pts m i = [p, q, r]"
proof -
  obtain a b c where "indices m ! i = (a, b, c)" by (cases "indices m ! i") auto
  then have "tri_pts m i = [positions m ! a, positions m ! b, positions m ! c]"
    by (simp add: tri_pts_def)
  then show ?thesis by blast
qed

lemma tri_min_le_max: "tri_min m ax i \<le> tri_max m ax i"
proof -
  obtain p q r where "tri_pts m i = [p, q, r]" using tri_pts_three by blast
  then show ?thesis by (simp add: tri_min_def tri_max_def)
qed

lemma left_or_right: "goes_left m ax pos i \<or> goes_right m ax pos i"
  using tri_min_le_max [of m ax i] by (auto simp: goes_left_def goes_right_def)

lemma coord_vmin: "coord ax (vmin p q) = min (coord ax p) (coord ax q)"
  by (cases ax; cases p; cases q) (simp_all add: vmin_def)

lemma coord_vmax: "coord ax (vmax p q) = max (coord ax p) (coord ax q)"
  by (cases ax; cases p; cases q) (simp_all add: vmax_def)

lemma fold_grow_mono:
  "coord ax (box_min (fold grow ps b)) \<le> coord ax (box_min b) \<and> coord ax (box_max b) \<le> coord ax (box_max (fold grow ps b))"
proof (induction ps arbitrary: b)
  case Nil
  show ?case by simp
next
  case (Cons p ps)
  have "coord ax (box_min (grow p b)) \<le> coord ax (box_min b)" "coord ax (box_max b) \<le> coord ax (box_max (grow p b))"
    by (simp_all add: grow_def coord_vmin coord_vmax)
  with Cons [of "grow p b"] show ?case by auto
qed

lemma fold_grow_encloses:
  "p \<in> set ps \<Longrightarrow>
   coord ax (box_min (fold grow ps b)) \<le> coord ax p \<and> coord ax p \<le> coord ax (box_max (fold grow ps b))"
proof (induction ps arbitrary: b)
  case Nil
  then show ?case by simp
next
  case (Cons q qs)
  show ?case
  proof (cases "p = q")
    case True
    have "coord ax (box_min (grow q b)) \<le> coord ax q" "coord ax q \<le> coord ax (box_max (grow q b))"
      by (simp_all add: grow_def coord_vmin coord_vmax)
    with fold_grow_mono [of ax qs "grow q b"] True show ?thesis by auto
  next
    case False
    with Cons.prems have "p \<in> set qs" by simp
    from Cons.IH [OF this, of "grow q b"] show ?thesis by simp
  qed
qed

lemma computeAABB_point:
  assumes "computeAABB m ids = Some b" and "i \<in> set ids" and "p \<in> set (tri_pts m i)"
  shows "coord ax (box_min b) \<le> coord ax p \<and> coord ax p \<le> coord ax (box_max b)"
proof -
  from assms(2,3) have mem: "p \<in> set (concat (map (tri_pts m) ids))" by auto
  then obtain q qs where c: "concat (map (tri_pts m) ids) = q # qs"
    by (cases "concat (map (tri_pts m) ids)") auto
  with assms(1) have b: "b = fold grow qs \<lparr>box_min = q, box_max = q\<rparr>"
    by (simp add: computeAABB_def)
  show ?thesis
  proof (cases "p = q")
    case True
    with fold_grow_mono [of ax qs "\<lparr>box_min = q, box_max = q\<rparr>"] b show ?thesis by simp
  next
    case False
    with mem c have "p \<in> set qs" by simp
    from fold_grow_encloses [OF this] b show ?thesis by simp
  qed
qed

lemma computeAABB_encloses:
  assumes "computeAABB m ids = Some b" and "i \<in> set ids"
  shows "coord ax (box_min b) \<le> tri_min m ax i \<and> tri_max m ax i \<le> coord ax (box_max b)"
proof -
  obtain p q r where t: "tri_pts m i = [p, q, r]" using tri_pts_three by blast
  have "coord ax (box_min b) \<le> coord ax p \<and> coord ax p \<le> coord ax (box_max b)"
       "coord ax (box_min b) \<le> coord ax q \<and> coord ax q \<le> coord ax (box_max b)"
       "coord ax (box_min b) \<le> coord ax r \<and> coord ax r \<le> coord ax (box_max b)"
    using computeAABB_point [OF assms] t by simp_all
  then show ?thesis by (simp add: tri_min_def tri_max_def t)
qed

lemma build_complete: "i \<in> set ids \<Longrightarrow> in_some_leaf i (build thr maxd m ids box depth)"
proof (induction thr maxd m ids box depth rule: build.induct)
  case (1 thr maxd m ids depth)
  then show ?case by (simp add: in_some_leaf_def)
next
  case (2 thr maxd m ids b depth)
  let ?L = "left_ids m (split_axis b) (split_pos b) ids"
  let ?R = "right_ids m (split_axis b) (split_pos b) ids"
  show ?case
  proof (cases "length ids < thr \<or> maxd \<le> depth \<or> ?L = ids \<or> ?R = ids")
    case True
    with "2.prems" show ?thesis by (auto simp: in_some_leaf_def)
  next
    case False
    from "2.prems" left_or_right [of m "split_axis b" "split_pos b" i]
    have "i \<in> set ?L \<or> i \<in> set ?R" by (auto simp: left_ids_def right_ids_def)
    then show ?thesis
    proof
      assume "i \<in> set ?L"
      with False "2.IH"(1) have "in_some_leaf i (build thr maxd m ?L (computeAABB m ?L) (Suc depth))"
        by simp
      with False show ?thesis by (auto simp: in_some_leaf_def)
    next
      assume "i \<in> set ?R"
      with False "2.IH"(2) have "in_some_leaf i (build thr maxd m ?R (computeAABB m ?R) (Suc depth))"
        by simp
      with False show ?thesis by (auto simp: in_some_leaf_def)
    qed
  qed
qed

lemma build_straddlers: "straddlers_in_both m ids (build thr maxd m ids box depth)"
proof (induction thr maxd m ids box depth rule: build.induct)
  case (1 thr maxd m ids depth)
  show ?case by simp
next
  case (2 thr maxd m ids b depth)
  let ?ax = "split_axis b" and ?pos = "split_pos b"
  let ?L = "left_ids m ?ax ?pos ids"
  let ?R = "right_ids m ?ax ?pos ids"
  show ?case
  proof (cases "length ids < thr \<or> maxd \<le> depth \<or> ?L = ids \<or> ?R = ids")
    case True
    then show ?thesis by auto
  next
    case False
    have both: "in_some_leaf i (build thr maxd m ?L (computeAABB m ?L) (Suc depth))
              \<and> in_some_leaf i (build thr maxd m ?R (computeAABB m ?R) (Suc depth))"
      if "i \<in> set ids" "straddles m ?ax ?pos i" for i
    proof -
      from that have "i \<in> set ?L" "i \<in> set ?R"
        by (simp_all add: left_ids_def right_ids_def goes_left_def goes_right_def straddles_def)
      then show ?thesis by (simp add: build_complete)
    qed
    from False "2.IH" have
      "straddlers_in_both m ?L (build thr maxd m ?L (computeAABB m ?L) (Suc depth))"
      "straddlers_in_both m ?R (build thr maxd m ?R (computeAABB m ?R) (Suc depth))"
      by simp_all
    with False both show ?thesis by (simp add: list_all_iff)
  qed
qed

lemma split_axis_greatest: "greatest_extent_axis b (split_axis b)"
  by (auto simp: greatest_extent_axis_def split_axis_def)

lemma split_strict:
  assumes box: "computeAABB m ids = Some b"
    and nl: "left_ids m ax pos ids \<noteq> ids" and nr: "right_ids m ax pos ids \<noteq> ids"
  shows "coord ax (box_min b) < pos \<and> pos < coord ax (box_max b)"
proof -
  from nl obtain i where i: "i \<in> set ids" "\<not> goes_left m ax pos i"
    unfolding left_ids_def by (meson filter_True)
  from nr obtain j where j: "j \<in> set ids" "\<not> goes_right m ax pos j"
    unfolding right_ids_def by (meson filter_True)
  from i computeAABB_encloses [OF box i(1), of ax] tri_min_le_max [of m ax i]
  have "pos < coord ax (box_max b)" by (simp add: goes_left_def)
  moreover from j computeAABB_encloses [OF box j(1), of ax] tri_min_le_max [of m ax j]
  have "coord ax (box_min b) < pos" by (simp add: goes_right_def)
  ultimately show ?thesis by simp
qed

lemma build_splits_valid:
  "box = computeAABB m ids \<Longrightarrow> splits_valid m ids box (build thr maxd m ids box depth)"
proof (induction thr maxd m ids box depth rule: build.induct)
  case (1 thr maxd m ids depth)
  show ?case by simp
next
  case (2 thr maxd m ids b depth)
  let ?ax = "split_axis b" and ?pos = "split_pos b"
  let ?L = "left_ids m ?ax ?pos ids"
  let ?R = "right_ids m ?ax ?pos ids"
  show ?case
  proof (cases "length ids < thr \<or> maxd \<le> depth \<or> ?L = ids \<or> ?R = ids")
    case True
    then show ?thesis by auto
  next
    case False
    from "2.prems" have box: "computeAABB m ids = Some b" by simp
    from False have "?L \<noteq> ids" "?R \<noteq> ids" by simp_all
    from split_strict [OF box this]
    have strict: "coord ?ax (box_min b) < ?pos \<and> ?pos < coord ?ax (box_max b)" .
    from False "2.IH" have
      "splits_valid m ?L (computeAABB m ?L) (build thr maxd m ?L (computeAABB m ?L) (Suc depth))"
      "splits_valid m ?R (computeAABB m ?R) (build thr maxd m ?R (computeAABB m ?R) (Suc depth))"
      by simp_all
    with False strict split_axis_greatest [of b] show ?thesis
      by (simp add: split_pos_def)
  qed
qed

lemma build_height: "height (build thr maxd m ids box depth) \<le> maxd - depth"
proof (induction thr maxd m ids box depth rule: build.induct)
  case (1 thr maxd m ids depth)
  show ?case by simp
next
  case (2 thr maxd m ids b depth)
  let ?L = "left_ids m (split_axis b) (split_pos b) ids"
  let ?R = "right_ids m (split_axis b) (split_pos b) ids"
  show ?case
  proof (cases "length ids < thr \<or> maxd \<le> depth \<or> ?L = ids \<or> ?R = ids")
    case True
    then show ?thesis by auto
  next
    case False
    from False "2.IH" have
      "height (build thr maxd m ?L (computeAABB m ?L) (Suc depth)) \<le> maxd - Suc depth"
      "height (build thr maxd m ?R (computeAABB m ?R) (Suc depth)) \<le> maxd - Suc depth"
      by simp_all
    with False show ?thesis by auto
  qed
qed

lemma coincident_split:
  assumes "\<forall>i \<in> set ids. tri_pts m i = tri_pts m 0"
  shows "left_ids m ax pos ids = ids \<or> right_ids m ax pos ids = ids"
proof (cases "goes_left m ax pos 0")
  case True
  have "goes_left m ax pos i" if "i \<in> set ids" for i
    using that assms True by (simp add: goes_left_def tri_min_def)
  then show ?thesis by (simp add: left_ids_def)
next
  case False
  then have r: "goes_right m ax pos 0" using left_or_right by blast
  have "goes_right m ax pos i" if "i \<in> set ids" for i
    using that assms r by (simp add: goes_right_def tri_max_def)
  then show ?thesis by (simp add: right_ids_def)
qed

lemma build_coincident:
  assumes "\<forall>i \<in> set ids. tri_pts m i = tri_pts m 0"
  shows "build thr maxd m ids box depth = Leaf ids"
proof (cases box)
  case None
  then show ?thesis by simp
next
  case (Some b)
  with coincident_split [OF assms, of "split_axis b" "split_pos b"] show ?thesis by auto
qed
section \<open>The builder: claims\<close>

text \<open>
  C1. A well-formed mesh always yields a tree, and in the resulting tree every triangle
  index of the mesh is in the triangle-id list of at least one leaf; at every internal
  node a triangle of the node's set whose box straddles the split plane is in a leaf of
  both children. (A malformed mesh yields no tree but the error.)
\<close>

theorem build_bsp_tree_complete:
  "(valid_mesh m \<longrightarrow> (\<exists>t'. build_bsp_tree thr maxd m = Inr t'))
   \<and> (build_bsp_tree thr maxd m = Inr t \<longrightarrow>
        (\<forall>i < length (indices m). in_some_leaf i t)
        \<and> straddlers_in_both m [0..<length (indices m)] t)"
  by (auto simp: build_bsp_tree_def build_complete build_straddlers split: if_splits)

theorem build_bsp_tree_complete_witness:
  "valid_mesh two_triangles
   \<and> build_bsp_tree 1 4 two_triangles = Inr (Internal AxisX (3 / 2) (Leaf [0]) (Leaf [1]))
   \<and> length (indices two_triangles) = 2
   \<and> in_some_leaf 0 (Internal AxisX (3 / 2) (Leaf [0]) (Leaf [1]))
   \<and> in_some_leaf 1 (Internal AxisX (3 / 2) (Leaf [0]) (Leaf [1]))
   \<and> straddlers_in_both two_triangles [0..<length (indices two_triangles)]
         (Internal AxisX (3 / 2) (Leaf [0]) (Leaf [1]))"
proof -
  have v: "valid_mesh two_triangles" by code_simp
  have e: "build_bsp_tree 1 4 two_triangles = Inr (Internal AxisX (3 / 2) (Leaf [0]) (Leaf [1]))"
    by code_simp
  have n: "length (indices two_triangles) = 2" by (simp add: two_triangles_def)
  from build_bsp_tree_complete [of two_triangles 1 4 "Internal AxisX (3 / 2) (Leaf [0]) (Leaf [1])"]
    v e
  have "\<forall>i < length (indices two_triangles).
          in_some_leaf i (Internal AxisX (3 / 2) (Leaf [0]) (Leaf [1]))"
    and "straddlers_in_both two_triangles [0..<length (indices two_triangles)]
          (Internal AxisX (3 / 2) (Leaf [0]) (Leaf [1]))" by blast+
  with v e n show ?thesis by simp
qed

text \<open>
  C2. The recursive build is a total function: its recursion is bounded by the maximum
  depth, so the tree it returns is never deeper than \<open>maxd - depth\<close>. It emits a leaf
  with the whole set when the triangle count is below the threshold or the depth has
  reached the maximum, and when the classification sends the whole set to one child.
  For a well-formed mesh of N coincident triangles the result is the single leaf holding
  all N.
\<close>

theorem build_terminates:
  "height (build thr maxd m ids box depth) \<le> maxd - depth
   \<and> (length ids < thr \<or> maxd \<le> depth \<longrightarrow> build thr maxd m ids box depth = Leaf ids)
   \<and> (left_ids m (split_axis b) (split_pos b) ids = ids
        \<or> right_ids m (split_axis b) (split_pos b) ids = ids
      \<longrightarrow> build thr maxd m ids (Some b) depth = Leaf ids)
   \<and> (valid_mesh m \<and> coincident m
      \<longrightarrow> build_bsp_tree thr maxd m = Inr (Leaf [0..<length (indices m)]))"
proof -
  have "build thr maxd m ids box depth = Leaf ids" if "length ids < thr \<or> maxd \<le> depth"
    using that by (cases box) auto
  moreover have "build_bsp_tree thr maxd m = Inr (Leaf [0..<length (indices m)])"
    if "valid_mesh m" "coincident m"
  proof -
    from that(2) have "\<forall>i \<in> set [0..<length (indices m)]. tri_pts m i = tri_pts m 0"
      by (simp add: coincident_def list_all_iff)
    from build_coincident [OF this] that(1) show ?thesis by (simp add: build_bsp_tree_def)
  qed
  ultimately show ?thesis using build_height [of thr maxd m ids box depth] by auto
qed

text \<open>The witness uses the theorem twice on three coincident triangles: with threshold 4
  the count is below the threshold; with threshold 1 it is not, and the leaf comes from
  the degenerate-split guard.\<close>

theorem build_terminates_witness:
  "length [0, 1, 2 :: nat] < 4
   \<and> build 4 8 three_coincident [0, 1, 2] (computeAABB three_coincident [0, 1, 2]) 0
       = Leaf [0, 1, 2]
   \<and> \<not> (length [0, 1, 2 :: nat] < 1 \<or> (8::nat) \<le> 0)
   \<and> left_ids three_coincident (split_axis \<lparr>box_min = (0, 0, 0), box_max = (1, 1, 0)\<rparr>)
        (split_pos \<lparr>box_min = (0, 0, 0), box_max = (1, 1, 0)\<rparr>) [0, 1, 2] = [0, 1, 2]
   \<and> build 1 8 three_coincident [0, 1, 2] (Some \<lparr>box_min = (0, 0, 0), box_max = (1, 1, 0)\<rparr>) 0
       = Leaf [0, 1, 2]
   \<and> valid_mesh three_coincident \<and> coincident three_coincident
   \<and> build_bsp_tree 1 8 three_coincident = Inr (Leaf [0..<length (indices three_coincident)])"
proof -
  have l: "left_ids three_coincident (split_axis \<lparr>box_min = (0, 0, 0), box_max = (1, 1, 0)\<rparr>)
        (split_pos \<lparr>box_min = (0, 0, 0), box_max = (1, 1, 0)\<rparr>) [0, 1, 2] = [0, 1, 2]" by code_simp
  have v: "valid_mesh three_coincident" by code_simp
  have c: "coincident three_coincident" by code_simp
  from build_terminates [of 4 8 three_coincident "[0, 1, 2]"
      "computeAABB three_coincident [0, 1, 2]" 0 undefined]
  have "build 4 8 three_coincident [0, 1, 2] (computeAABB three_coincident [0, 1, 2]) 0
       = Leaf [0, 1, 2]" by simp
  moreover from build_terminates [of 1 8 three_coincident "[0, 1, 2]"
      "Some \<lparr>box_min = (0, 0, 0), box_max = (1, 1, 0)\<rparr>" 0 "\<lparr>box_min = (0, 0, 0), box_max = (1, 1, 0)\<rparr>"] l v c
  have "build 1 8 three_coincident [0, 1, 2] (Some \<lparr>box_min = (0, 0, 0), box_max = (1, 1, 0)\<rparr>) 0
       = Leaf [0, 1, 2]"
    and "build_bsp_tree 1 8 three_coincident = Inr (Leaf [0..<length (indices three_coincident)])"
    by simp_all
  ultimately show ?thesis using l v c by simp
qed

text \<open>
  C3. In the tree built for a mesh, at every internal node the split axis is an axis of
  greatest extent of the node's bounding box, every axis before it in the order x, y, z
  having strictly smaller extent; the split position is the midpoint of the box along
  that axis and lies strictly between the box's bounds along it.
\<close>

theorem build_splits:
  "build_bsp_tree thr maxd m = Inr t \<Longrightarrow>
   splits_valid m [0..<length (indices m)] (computeAABB m [0..<length (indices m)]) t"
  by (auto simp: build_bsp_tree_def build_splits_valid split: if_splits)

theorem build_splits_witness:
  "build_bsp_tree 1 4 two_triangles = Inr (Internal AxisX (3 / 2) (Leaf [0]) (Leaf [1]))
   \<and> splits_valid two_triangles [0..<length (indices two_triangles)]
        (computeAABB two_triangles [0..<length (indices two_triangles)])
        (Internal AxisX (3 / 2) (Leaf [0]) (Leaf [1]))"
proof -
  have e: "build_bsp_tree 1 4 two_triangles = Inr (Internal AxisX (3 / 2) (Leaf [0]) (Leaf [1]))"
    by code_simp
  from build_splits [OF e] e show ?thesis by simp
qed
section \<open>Bind groups and the material table\<close>

text \<open>
  C5. As stated the claim fails for \<open>W06p01\<close>: that bind group binds the vertex positions
  at slot 2, the triangle indices at slot 3 and the vertex normals, a vertex attribute, at
  slot 4, after the triangle indices.
\<close>

theorem bind_order_W06p01_counterexample: "\<not> convention_order (bindGroup_entries W06p01)"
  by code_simp

text \<open>
  C5, amended. In every demo that consumes the tree the slots are written in strictly
  ascending order, and read by ascending slot the bind group binds the resources of the
  convention in the convention's order once the separate normal buffer is left aside;
  \<open>W06p01\<close>, the one demo with such a buffer, binds it after the triangle indices. All
  other demos follow the convention's order as it stands.
\<close>

theorem bind_order:
  "convention_order (filter (\<lambda>e. snd e \<noteq> Normals) (bindGroup_entries d))
   \<and> (d \<noteq> W06p01 \<longrightarrow> convention_order (bindGroup_entries d))
   \<and> sorted_wrt (<) (map fst (bindGroup_entries d))"
  by (cases d) (simp_all, code_simp+)

theorem bind_order_witness:
  "Part002 \<noteq> W06p01 \<and> convention_order (bindGroup_entries Part002)
   \<and> convention_order (filter (\<lambda>e. snd e \<noteq> Normals) (bindGroup_entries W06p01))"
  using bind_order [of Part002] bind_order [of W06p01] by simp

lemma foldl_push_material:
  "foldl (push_material d) acc ms = acc @ concat (map (push_material d []) ms)"
proof (induction ms arbitrary: acc)
  case Nil
  show ?case by simp
next
  case (Cons m ms)
  have "push_material d acc m = acc @ push_material d [] m" by (simp add: push_material_def)
  with Cons [of "push_material d acc m"] show ?case by simp
qed

lemma block_of_concat:
  "\<forall>xs \<in> set xss. length xs = n \<Longrightarrow> i < length xss \<Longrightarrow>
   take n (drop (n * i) (concat xss)) = xss ! i"
proof (induction xss arbitrary: i)
  case Nil
  then show ?case by simp
next
  case (Cons xs xss)
  show ?case
  proof (cases i)
    case 0
    with Cons.prems show ?thesis by simp
  next
    case (Suc k)
    with Cons.prems have "take n (drop (n * k) (concat xss)) = xss ! k"
      by (intro Cons.IH) simp_all
    with Suc Cons.prems show ?thesis by simp
  qed
qed

lemma length_concat_blocks:
  "\<forall>xs \<in> set xss. length xs = n \<Longrightarrow> length (concat xss) = n * length xss"
  by (induction xss) simp_all

lemma length_push_material: "length (push_material d [] m) = record_len d"
  by (simp add: push_material_def record_len_def)

text \<open>
  C6. As stated the claim fails in the demos that push four numbers for a material: a
  record is the sum of colour and emission, so it does not convey the two colours. Two
  materials with different colour and different emission give the same table.
\<close>

theorem color_table_sum_counterexample:
  "color_table Part002 [red_diffuse] = color_table Part002 [red_emitter]
   \<and> color red_diffuse \<noteq> color red_emitter
   \<and> emission red_diffuse \<noteq> emission red_emitter"
proof -
  have "js_add (Finite 1) (Finite 0) = js_add (Finite 0) (Finite 1)" by simp
  then show ?thesis
    by (simp add: color_table_def matColors_def push_material_def red_diffuse_def
        red_emitter_def del: js_add.simps Float32_store.simps)
qed

text \<open>
  C6, amended. The table holds one record for each material, in the order of the
  materials list, each number rounded to binary32 (to an infinity when it is too large).
  In \<open>Project1\<close>, \<open>Project2\<close>, \<open>Part007\<close>, \<open>W06p03_2\<close> and \<open>W06p03_3\<close> a record is the
  colour (red, green, blue, alpha) followed by the emission (red, green, blue, alpha); in
  \<open>Part002\<close>, \<open>W07p01\<close>, \<open>W06p01\<close> and \<open>W06p03_1\<close> a record is the four sums of colour and
  emission, each sum computed in binary64 before the table rounds it to binary32.
\<close>

theorem color_table_records:
  "length (color_table d ms) = record_len d * length ms
   \<and> (\<forall>i < length ms.
        table_record d (color_table d ms) i
          = map Float32_store
              (if eight_floats d then
                 [red (color (ms ! i)), green (color (ms ! i)), blue (color (ms ! i)),
                  alpha (color (ms ! i)), red (emission (ms ! i)), green (emission (ms ! i)),
                  blue (emission (ms ! i)), alpha (emission (ms ! i))]
               else
                 [js_add (red (color (ms ! i))) (red (emission (ms ! i))),
                  js_add (green (color (ms ! i))) (green (emission (ms ! i))),
                  js_add (blue (color (ms ! i))) (blue (emission (ms ! i))),
                  js_add (alpha (color (ms ! i))) (alpha (emission (ms ! i)))]))"
proof -
  let ?blocks = "map (\<lambda>m. map Float32_store (push_material d [] m)) ms"
  have tab: "color_table d ms = concat ?blocks"
    by (simp add: color_table_def matColors_def foldl_push_material map_concat comp_def)
  have len: "\<forall>xs \<in> set ?blocks. length xs = record_len d"
    by (auto simp: length_push_material)
  have "length (color_table d ms) = record_len d * length ms"
    using length_concat_blocks [OF len] by (simp add: tab)
  moreover have "table_record d (color_table d ms) i
      = map Float32_store (push_material d [] (ms ! i))"
    if "i < length ms" for i
    using block_of_concat [OF len, of i] that by (simp add: table_record_def tab)
  ultimately show ?thesis by (simp add: push_material_def)
qed

theorem color_table_records_witness:
  "length (color_table Project1 [red_diffuse, red_emitter]) = 16
   \<and> table_record Project1 (color_table Project1 [red_diffuse, red_emitter]) 1
       = [Finite 0, Finite 0, Finite 0, Finite 1, Finite 1, Finite 0, Finite 0, Finite 0]
   \<and> table_record Part002 (color_table Part002 [red_diffuse, faint_emitter]) 1
       = [Finite 1, Finite 0, Finite 0, Finite 1]"
proof -
  have f: "Float32_store (Finite 0) = Finite 0" "Float32_store (Finite 1) = Finite 1"
    by code_simp+
  have s: "Float32_store (js_add (red (color faint_emitter)) (red (emission faint_emitter)))
      = Finite 1"
    "Float32_store (js_add (green (color faint_emitter)) (green (emission faint_emitter)))
      = Finite 0"
    "Float32_store (js_add (blue (color faint_emitter)) (blue (emission faint_emitter)))
      = Finite 0"
    "Float32_store (js_add (alpha (color faint_emitter)) (alpha (emission faint_emitter)))
      = Finite 1"
    by code_simp+
  have a: "length (color_table Project1 [red_diffuse, red_emitter]) = 16"
    using color_table_records [of Project1 "[red_diffuse, red_emitter]"]
    by (simp add: record_len_def)
  have b: "table_record Project1 (color_table Project1 [red_diffuse, red_emitter]) 1
       = [Finite 0, Finite 0, Finite 0, Finite 1, Finite 1, Finite 0, Finite 0, Finite 0]"
    using color_table_records [of Project1 "[red_diffuse, red_emitter]", THEN conjunct2,
        rule_format, of 1]
    by (simp add: red_emitter_def f del: Float32_store.simps)
  have c: "table_record Part002 (color_table Part002 [red_diffuse, faint_emitter]) 1
       = [Finite 1, Finite 0, Finite 0, Finite 1]"
    using color_table_records [of Part002 "[red_diffuse, faint_emitter]", THEN conjunct2,
        rule_format, of 1]
    by (simp add: s del: js_add.simps Float32_store.simps)
  from a b c show ?thesis by (intro conjI)
qed
section \<open>Runs of the demos\<close>

lemma steps_Nil [simp]: "steps d [] s = s"
  by (simp add: steps_def)

lemma steps_snoc: "steps d (evs @ [e]) s = step d e (steps d evs s)"
  by (simp add: steps_def)

lemma step_boot: "step d e (boot w h ok) = boot w h ok"
  by (cases e) (simp_all add: boot_def)

lemma steps_boot: "steps d pre (boot w h ok) = boot w h ok"
  by (induction pre rule: rev_induct) (simp_all add: steps_snoc step_boot)

lemma draws_after_build_append:
  "draws_after_build b (xs @ ys)
     = (draws_after_build b xs \<and> draws_after_build (b \<or> BuildBspTree \<in> set xs) ys)"
proof (induction xs arbitrary: b)
  case Nil
  show ?case by simp
next
  case (Cons c cs)
  show ?case by (cases c) (auto simp: Cons)
qed

lemma build_inv_animate:
  "build_inv d s \<Longrightarrow> rebuilds d \<or> bindGroup s \<noteq> None \<Longrightarrow> animate d s = Some s' \<Longrightarrow>
   build_inv d s'"
  by (auto simp: build_inv_def animate_def onReadComplete_def render_def progress_def
      draws_after_build_append split: if_splits)

lemma build_inv_step: "build_inv d s \<Longrightarrow> build_inv d (step d e s)"
proof (cases e)
  case AnimationFrame
  assume inv: "build_inv d s"
  show ?thesis
  proof (cases "pending s = 0")
    case True
    with inv AnimationFrame show ?thesis by simp
  next
    case False
    let ?s = "s\<lparr>pending := pending s - 1\<rparr>"
    from inv False have i: "build_inv d ?s" and b: "rebuilds d \<or> bindGroup ?s \<noteq> None"
      by (auto simp: build_inv_def)
    show ?thesis
    proof (cases "animate d ?s")
      case None
      with i False AnimationFrame show ?thesis by (simp add: or_abort_def)
    next
      case (Some s')
      from build_inv_animate [OF i b Some] Some False AnimationFrame show ?thesis
        by (simp add: or_abort_def)
    qed
  qed
next
  case ClickProgressive
  assume inv: "build_inv d s"
  show ?thesis
  proof (cases "listening s \<and> \<not> progressing s")
    case False
    with inv ClickProgressive show ?thesis by (auto simp: build_inv_def)
  next
    case True
    let ?s = "s\<lparr>progressing := True\<rparr>"
    from inv True have i: "build_inv d ?s" and b: "rebuilds d \<or> bindGroup ?s \<noteq> None"
      by (auto simp: build_inv_def)
    show ?thesis
    proof (cases "animate d ?s")
      case None
      with i True ClickProgressive show ?thesis by (simp add: or_abort_def)
    next
      case (Some s')
      from build_inv_animate [OF i b Some] Some True ClickProgressive show ?thesis
        by (simp add: or_abort_def)
    qed
  qed
next
  case ChangeSubdivs
  assume inv: "build_inv d s"
  show ?thesis
  proof (cases "d = W06p03_1 \<and> declared s")
    case False
    with inv ChangeSubdivs show ?thesis by auto
  next
    case True
    then have b: "rebuilds d \<or> bindGroup s \<noteq> None" by simp
    show ?thesis
    proof (cases "animate d s")
      case None
      with inv True ChangeSubdivs show ?thesis by (simp add: or_abort_def)
    next
      case (Some s')
      from build_inv_animate [OF inv b Some] Some True ChangeSubdivs show ?thesis
        by (simp add: or_abort_def)
    qed
  qed
qed

lemma build_inv_steps: "build_inv d s \<Longrightarrow> build_inv d (steps d evs s)"
  by (induction evs rule: rev_induct) (simp_all add: steps_snoc build_inv_step)

lemma build_inv_main:
  assumes "ok \<or> d \<noteq> Project1"
  shows "build_inv d (main_body d (boot w h ok))"
proof -
  have "ok \<or> guarded d \<or> rebuilds d" using assms by (cases d) auto
  then show ?thesis
    by (auto simp: build_inv_def main_body_def main_setup_def boot_def animate_def
        onReadComplete_def render_def progress_def or_abort_def draws_after_build_append
        split: if_splits)
qed

lemma draws_follow_build:
  "ok \<or> d \<noteq> Project1 \<Longrightarrow> draws_after_build False (gpu_log (run d w h ok pre post))"
  using build_inv_steps [OF build_inv_main, of ok d post w h]
  by (simp add: run_def steps_boot build_inv_def)

text \<open>
  C7. In every demo but \<open>Project1\<close>, and in \<open>Project1\<close> when the OBJ file loads, every
  render pass of every run comes after a completed \<open>build_bsp_tree\<close> and is given a bind
  group: this is \<open>draws_follow_build\<close> above. \<open>Project1\<close> does not test the result of
  \<open>readOBJFile\<close> as the other progressive demos do. When the file fails to load, \<open>main\<close>
  ends with a TypeError in \<open>onReadComplete\<close>, after the click listener is registered; the
  second click on the Progressive button then calls \<open>animate()\<close>, and a render pass is
  encoded and submitted although \<open>build_bsp_tree\<close> never ran and \<open>bindGroup\<close> is
  undefined.
\<close>

theorem Project1_draws_unbound:
  "gpu_log (run Project1 512 512 False [] [ClickProgressive, ClickProgressive])
     = [RenderPass (Some Clear) None]"
  by (simp add: run_def steps_def main_body_def main_setup_def boot_def animate_def
      onReadComplete_def render_def progress_def or_abort_def)

lemma accum_ops_append: "accum_ops (xs @ ys) = accum_ops xs @ accum_ops ys"
  by (induction xs rule: accum_ops.induct) simp_all

lemma not_rebuilds_progressive: "\<not> rebuilds d \<Longrightarrow> progressive d"
  by (cases d) simp_all

lemma clear_once_snoc_Load: "xs \<noteq> [] \<Longrightarrow> clear_once xs \<Longrightarrow> clear_once (xs @ [Load])"
  by (cases xs) simp_all

lemma accum_inv_animate:
  "accum_inv s \<Longrightarrow> progressing s \<or> 0 < frame s \<Longrightarrow> animate d s = Some s' \<Longrightarrow> accum_inv s'"
  using not_rebuilds_progressive [of d]
  by (auto simp: accum_inv_def animate_def onReadComplete_def render_def progress_def
      accum_ops_append clear_once_snoc_Load split: if_splits)

lemma accum_inv_step: "accum_inv s \<Longrightarrow> accum_inv (step d e s)"
proof (cases e)
  case AnimationFrame
  assume inv: "accum_inv s"
  show ?thesis
  proof (cases "pending s = 0")
    case True
    with inv AnimationFrame show ?thesis by simp
  next
    case False
    let ?s = "s\<lparr>pending := pending s - 1\<rparr>"
    from inv False have i: "accum_inv ?s" and b: "progressing ?s \<or> 0 < frame ?s"
      by (auto simp: accum_inv_def)
    show ?thesis
    proof (cases "animate d ?s")
      case None
      with i False AnimationFrame show ?thesis by (simp add: or_abort_def)
    next
      case (Some s')
      from accum_inv_animate [OF i b Some] Some False AnimationFrame show ?thesis
        by (simp add: or_abort_def)
    qed
  qed
next
  case ClickProgressive
  assume inv: "accum_inv s"
  show ?thesis
  proof (cases "listening s \<and> \<not> progressing s")
    case False
    with inv ClickProgressive show ?thesis by (auto simp: accum_inv_def)
  next
    case True
    let ?s = "s\<lparr>progressing := True\<rparr>"
    from inv have i: "accum_inv ?s" and b: "progressing ?s \<or> 0 < frame ?s"
      by (auto simp: accum_inv_def)
    show ?thesis
    proof (cases "animate d ?s")
      case None
      with i True ClickProgressive show ?thesis by (simp add: or_abort_def)
    next
      case (Some s')
      from accum_inv_animate [OF i b Some] Some True ClickProgressive show ?thesis
        by (simp add: or_abort_def)
    qed
  qed
next
  case ChangeSubdivs
  assume inv: "accum_inv s"
  show ?thesis
  proof (cases "d = W06p03_1 \<and> declared s")
    case False
    with inv ChangeSubdivs show ?thesis by auto
  next
    case True
    with inv ChangeSubdivs show ?thesis
      by (auto simp: accum_inv_def animate_def onReadComplete_def render_def or_abort_def
          accum_ops_append)
  qed
qed

lemma accum_inv_steps: "accum_inv s \<Longrightarrow> accum_inv (steps d evs s)"
  by (induction evs rule: rev_induct) (simp_all add: steps_snoc accum_inv_step)

lemma accum_inv_main: "accum_inv (main_body d (boot w h ok))"
  using not_rebuilds_progressive [of d]
  by (auto simp: accum_inv_def main_body_def main_setup_def boot_def animate_def
      onReadComplete_def render_def progress_def or_abort_def accum_ops_append
      split: if_splits)

lemma frame_animate: "animate d s = Some s' \<Longrightarrow> frame s \<le> frame s' \<and> frame s' \<le> frame s + 1"
  by (auto simp: animate_def onReadComplete_def render_def progress_def split: if_splits)

lemma frame_step: "frame s \<le> frame (step d e s) \<and> frame (step d e s) \<le> frame s + 1"
proof (cases e)
  case AnimationFrame
  show ?thesis
  proof (cases "animate d (s\<lparr>pending := pending s - 1\<rparr>)")
    case None
    with AnimationFrame show ?thesis by (simp add: or_abort_def)
  next
    case (Some s')
    from frame_animate [OF Some] Some AnimationFrame show ?thesis by (simp add: or_abort_def)
  qed
next
  case ClickProgressive
  show ?thesis
  proof (cases "animate d (s\<lparr>progressing := True\<rparr>)")
    case None
    with ClickProgressive show ?thesis by (simp add: or_abort_def)
  next
    case (Some s')
    from frame_animate [OF Some] Some ClickProgressive show ?thesis by (simp add: or_abort_def)
  qed
next
  case ChangeSubdivs
  show ?thesis
  proof (cases "animate d s")
    case None
    with ChangeSubdivs show ?thesis by (auto simp: or_abort_def)
  next
    case (Some s')
    from frame_animate [OF Some] Some ChangeSubdivs show ?thesis by (auto simp: or_abort_def)
  qed
qed

text \<open>
  C8. In a progressive demo \<open>render\<close> uses \<open>loadOp\<close> "clear" for the accumulation
  attachment exactly when \<open>frame\<close> is 0; no event makes \<open>frame\<close> smaller, an event adds
  at most 1 to it; and in every run the accumulation attachment is cleared by the first
  pass at most, every later pass loading the previous contents.
\<close>

theorem accumulation_cleared_once:
  "(progressive d \<longrightarrow>
      accum_ops (gpu_log (render d s))
        = accum_ops (gpu_log s) @ [if frame s = 0 then Clear else Load])
   \<and> frame s \<le> frame (step d e s) \<and> frame (step d e s) \<le> frame s + 1
   \<and> clear_once (accum_ops (gpu_log (run d w h ok pre post)))"
  using accum_inv_steps [OF accum_inv_main, of d post d w h ok] frame_step [of s d e]
  by (simp add: run_def steps_boot accum_inv_def render_def accum_ops_append)

theorem accumulation_cleared_once_witness:
  "progressive Part007
   \<and> accum_ops (gpu_log (run Part007 512 512 True []
        [AnimationFrame, ClickProgressive, AnimationFrame, ClickProgressive]))
       = [Clear, Load, Load, Load]
   \<and> clear_once [Clear, Load, Load, Load]"
proof -
  have e: "accum_ops (gpu_log (run Part007 512 512 True []
        [AnimationFrame, ClickProgressive, AnimationFrame, ClickProgressive]))
       = [Clear, Load, Load, Load]"
    by (simp add: run_def steps_def main_body_def main_setup_def boot_def animate_def
        onReadComplete_def render_def progress_def or_abort_def)
  from accumulation_cleared_once [of Part007 "boot 512 512 True" AnimationFrame 512 512 True "[]"
      "[AnimationFrame, ClickProgressive, AnimationFrame, ClickProgressive]"] e
  show ?thesis by simp
qed

section \<open>The UI uniform buffer\<close>

text \<open>The encoding of an integer in the binade \<open>[2 ^ e, 2 ^ (e + 1))\<close>.\<close>

lemma Float32_bits_int:
  assumes "2 ^ e \<le> v" and "v < 2 ^ (e + 1)"
  shows "Float32_bits (of_int v) = (int e + 127) * 2 ^ 23 + (f32_significand (of_int v) - 2 ^ 23)"
    and "f32_significand (of_int v) = round_half_even (of_int v * 2 ^ 23 / 2 ^ e)"
    and "2 ^ 23 \<le> f32_significand (of_int v)" and "f32_significand (of_int v) \<le> 2 ^ 24"
proof -
  have "(1::int) \<le> 2 ^ e" by simp
  with assms(1) have v1: "1 \<le> v" by linarith
  have il: "ilog2 v = e" using assms by (rule ilog2_unique)
  from v1 have "binade \<bar>of_int v\<bar> = int e" by (simp add: binade_def il)
  then have ex: "f32_exponent (of_int v) = int e" by (simp add: f32_exponent_def)
  from v1 show "Float32_bits (of_int v) = (int e + 127) * 2 ^ 23 + (f32_significand (of_int v) - 2 ^ 23)"
    by (simp add: Float32_bits_def ex)
  have p: "pow2 (int e - 23) = 2 ^ e / 2 ^ 23" using pow2_shift [of e] by (simp add: field_simps)
  have "f32_significand (of_int v) = round_half_even (\<bar>of_int v\<bar> / (2 ^ e / 2 ^ 23))"
    by (simp only: f32_significand_def ex p)
  also have "\<bar>of_int v :: rat\<bar> / (2 ^ e / 2 ^ 23) = of_int v * 2 ^ 23 / 2 ^ e"
    using v1 by simp
  finally show sg: "f32_significand (of_int v) = round_half_even (of_int v * 2 ^ 23 / 2 ^ e)" .
  let ?x = "(of_int v :: rat) * 2 ^ 23 / 2 ^ e"
  from assms(1) have "(2::rat) ^ e \<le> of_int v" by (metis of_int_le_iff of_int_numeral of_int_power)
  then have lo: "2 ^ 23 \<le> ?x" by (simp add: field_simps)
  from assms(2) have "(of_int v :: rat) < 2 ^ (e + 1)" by (metis of_int_less_iff of_int_numeral of_int_power)
  then have hi: "?x < 2 ^ 24" by (simp add: field_simps)
  from lo have "(of_int 8388608 :: rat) \<le> ?x" by simp
  moreover from hi have "?x < (of_int 16777216 :: rat)" by simp
  ultimately have "8388608 \<le> round_half_even ?x \<and> round_half_even ?x \<le> 16777216"
    by (rule round_half_even_range)
  then show "2 ^ 23 \<le> f32_significand (of_int v)" "f32_significand (of_int v) \<le> 2 ^ 24"
    by (simp_all add: sg)
qed

lemma Float32_Uint32_fixed_points:
  assumes "0 \<le> v" and "v < 2 ^ 32"
  shows "Float32_bits (of_int v) = Uint32_bits v \<longleftrightarrow> v = 0 \<or> v = 1318926965"
proof (cases "v = 0")
  case True
  then show ?thesis by (simp add: Float32_bits_def Uint32_bits_def)
next
  case False
  with assms have v1: "1 \<le> v" by simp
  from assms have u: "Uint32_bits v = v" by (simp add: Uint32_bits_def)
  define e where "e = ilog2 v"
  from ilog2_bounds [OF v1] have b: "2 ^ e \<le> v" "v < 2 ^ (e + 1)" by (simp_all add: e_def)
  note F = Float32_bits_int [OF b]
  let ?q = "f32_significand (of_int v)"
  consider "v < 1065353216" | "1065353216 \<le> v" "v < 2 ^ 30" | "2 ^ 30 \<le> v" "v < 2 ^ 31" | "2 ^ 31 \<le> v"
    by fastforce
  then show ?thesis
  proof cases
    case 1
    have "(127::int) * 2 ^ 23 \<le> (int e + 127) * 2 ^ 23" by simp
    with F(1,3) have "1065353216 \<le> Float32_bits (of_int v)" by simp
    with 1 u False show ?thesis by simp
  next
    case 2
    then have "ilog2 v = 29" by (intro ilog2_unique) simp_all
    then have "e = 29" by (simp add: e_def)
    with F(1,3) have "1308622848 \<le> Float32_bits (of_int v)" by simp
    with 2 u False show ?thesis by simp
  next
    case 3
    then have "ilog2 v = 30" by (intro ilog2_unique) simp_all
    then have e: "e = 30" by (simp add: e_def)
    from F(2) have q: "?q = round_half_even (of_int v / 128)" by (simp add: e)
    from F(1) have bits: "Float32_bits (of_int v) = 1308622848 + ?q" by (simp add: e)
    show ?thesis
    proof
      assume "Float32_bits (of_int v) = Uint32_bits v"
      with bits u have "?q = v - 1308622848" by simp
      with round_half_even_close [of "of_int v / 128"] q
      have "\<bar>(of_int (v - 1308622848) :: rat) - of_int v / 128\<bar> \<le> 1 / 2" by simp
      then have "\<bar>(of_int v :: rat) * 127 - 167503724544\<bar> \<le> 64" by (simp add: abs_le_iff field_simps)
      then have "\<bar>(of_int (v * 127 - 167503724544) :: rat)\<bar> \<le> of_int 64" by simp
      then have "\<bar>v * 127 - 167503724544\<bar> \<le> 64" by (simp only: of_int_abs [symmetric] of_int_le_iff)
      then have "v = 1318926965" by presburger
      then show "v = 0 \<or> v = 1318926965" ..
    next
      assume "v = 0 \<or> v = 1318926965"
      with False have "v = 1318926965" by simp
      moreover have "Float32_bits 1318926965 = Uint32_bits 1318926965" by code_simp
      ultimately show "Float32_bits (of_int v) = Uint32_bits v" by simp
    qed
  next
    case 4
    with assms have "ilog2 v = 31" by (intro ilog2_unique) simp_all
    then have "e = 31" by (simp add: e_def)
    with F(1,4) have "Float32_bits (of_int v) \<le> 1333788672" by simp
    with 4 u show ?thesis by simp
  qed
qed

lemma ui_inv_animate: "ui_inv w h s \<Longrightarrow> animate d s = Some s' \<Longrightarrow> ui_inv w h s'"
  by (auto simp: ui_inv_def animate_def onReadComplete_def render_def progress_def
      split: if_splits)

lemma ui_inv_step: "ui_inv w h s \<Longrightarrow> ui_inv w h (step d e s)"
proof (cases e)
  case AnimationFrame
  assume inv: "ui_inv w h s"
  let ?s = "s\<lparr>pending := pending s - 1\<rparr>"
  from inv have i: "ui_inv w h ?s" by (simp add: ui_inv_def)
  show ?thesis
  proof (cases "animate d ?s")
    case None
    with i inv AnimationFrame show ?thesis by (simp add: or_abort_def)
  next
    case (Some s')
    from ui_inv_animate [OF i Some] inv Some AnimationFrame show ?thesis
      by (simp add: or_abort_def)
  qed
next
  case ClickProgressive
  assume inv: "ui_inv w h s"
  let ?s = "s\<lparr>progressing := True\<rparr>"
  from inv have i: "ui_inv w h ?s" and j: "ui_inv w h (s\<lparr>progressing := False\<rparr>)"
    by (simp_all add: ui_inv_def)
  show ?thesis
  proof (cases "animate d ?s")
    case None
    with i j inv ClickProgressive show ?thesis by (simp add: or_abort_def)
  next
    case (Some s')
    from ui_inv_animate [OF i Some] j inv Some ClickProgressive show ?thesis
      by (simp add: or_abort_def)
  qed
next
  case ChangeSubdivs
  assume inv: "ui_inv w h s"
  show ?thesis
  proof (cases "animate d s")
    case None
    with inv ChangeSubdivs show ?thesis by (auto simp: or_abort_def)
  next
    case (Some s')
    from ui_inv_animate [OF inv Some] inv Some ChangeSubdivs show ?thesis
      by (auto simp: or_abort_def)
  qed
qed

lemma ui_inv_steps: "ui_inv w h s \<Longrightarrow> ui_inv w h (steps d evs s)"
  by (induction evs rule: rev_induct) (simp_all add: steps_snoc ui_inv_step)

lemma ui_inv_main: "progressive d \<Longrightarrow> ui_inv w h (main_body d (boot w h True))"
  by (auto simp: ui_inv_def main_body_def main_setup_def boot_def animate_def
      onReadComplete_def render_def progress_def or_abort_def split: if_splits)

lemma Float32_bits_0: "Float32_bits 0 = 0"
  by (simp add: Float32_bits_def)

text \<open>
  C10. As stated the claim fails: the two encodings of a field agree not only at 0. The
  integer 1318926965 rounds to the binary32 number 1318926976, whose bit pattern
  \<open>0x4E9D3A75\<close> is 1318926965 again. On a canvas of that width and height the width and
  height words written first are the words of every later update.
\<close>

theorem ui_buffer_encodings_counterexample:
  "(1318926965 :: int) \<noteq> 0
   \<and> Float32_bits (of_int 1318926965) = Uint32_bits 1318926965
   \<and> take 2 (uniformUIBuffer (main_setup Part007 (boot 1318926965 1318926965 True)))
     = take 2 (uniformUIBuffer (run Part007 1318926965 1318926965 True [] []))"
proof -
  have "Float32_bits 1318926965 = Uint32_bits 1318926965" by code_simp
  then show ?thesis
    by (simp add: run_def steps_def main_body_def main_setup_def boot_def animate_def
        onReadComplete_def render_def progress_def or_abort_def)
qed

text \<open>
  C10, amended. A progressive demo first writes the binary32 encodings of
  \<open>canvas.width\<close>, \<open>canvas.height\<close> and 0; every update in \<open>animate\<close> writes the unsigned
  32-bit encodings of \<open>canvas.width\<close>, \<open>canvas.height\<close> and the incremented \<open>frame\<close>.
  For a value below \<open>2 ^ 32\<close> the two encodings are the same word exactly when the value
  is 0 or 1318926965. After \<open>main\<close> and after any later event the buffer holds the integer
  encoding; it differs from the buffer as first written when the width or the height is
  positive, below \<open>2 ^ 32\<close> and not 1318926965, and also whenever \<open>frame\<close> is below
  \<open>2 ^ 32\<close>.
\<close>

theorem ui_buffer_encodings:
  "(progressive d \<longrightarrow>
      uniformUIBuffer (main_setup d (boot w h ok))
        = [Float32_bits (of_int w), Float32_bits (of_int h), Float32_bits 0])
   \<and> (progressing s \<longrightarrow>
        uniformUIBuffer (progress s)
          = [Uint32_bits (canvas_width s), Uint32_bits (canvas_height s),
             Uint32_bits (int (frame s + 1))])
   \<and> (0 \<le> v \<and> v < 2 ^ 32 \<longrightarrow>
        (Float32_bits (of_int v) = Uint32_bits v) = (v = 0 \<or> v = 1318926965))
   \<and> (progressive d \<longrightarrow>
        uniformUIBuffer (run d w h True pre post)
          = [Uint32_bits w, Uint32_bits h, Uint32_bits (int (frame (run d w h True pre post)))])
   \<and> (progressive d
        \<and> (0 < w \<and> w < 2 ^ 32 \<and> w \<noteq> 1318926965 \<or> 0 < h \<and> h < 2 ^ 32 \<and> h \<noteq> 1318926965
             \<or> int (frame (run d w h True pre post)) < 2 ^ 32)
      \<longrightarrow>
        uniformUIBuffer (run d w h True pre post)
          \<noteq> uniformUIBuffer (main_setup d (boot w h True)))"
proof -
  have a: "uniformUIBuffer (main_setup d (boot w h ok'))
        = [Float32_bits (of_int w), Float32_bits (of_int h), Float32_bits 0]"
    if "progressive d" for ok'
    using that by (simp add: main_setup_def boot_def)
  have b: "uniformUIBuffer (progress s)
          = [Uint32_bits (canvas_width s), Uint32_bits (canvas_height s),
             Uint32_bits (int (frame s + 1))]" if "progressing s"
    using that by (simp add: progress_def)
  have c: "(Float32_bits (of_int v) = Uint32_bits v) = (v = 0 \<or> v = 1318926965)"
    if "0 \<le> v \<and> v < 2 ^ 32" for v
    using that Float32_Uint32_fixed_points [of v] by simp
  have u: "uniformUIBuffer (run d w h True pre post)
          = [Uint32_bits w, Uint32_bits h, Uint32_bits (int (frame (run d w h True pre post)))]"
    and f: "0 < frame (run d w h True pre post)"
    if p: "progressive d"
    using ui_inv_steps [OF ui_inv_main [OF p], of w h d post]
    by (simp_all add: run_def steps_boot ui_inv_def)
  have d: "uniformUIBuffer (run d w h True pre post)
          \<noteq> uniformUIBuffer (main_setup d (boot w h True))"
    if p: "progressive d"
      and wh: "0 < w \<and> w < 2 ^ 32 \<and> w \<noteq> 1318926965 \<or> 0 < h \<and> h < 2 ^ 32 \<and> h \<noteq> 1318926965
             \<or> int (frame (run d w h True pre post)) < 2 ^ 32"
  proof -
    let ?n = "int (frame (run d w h True pre post))"
    have "Float32_bits 0 \<noteq> Uint32_bits ?n" if "?n < 2 ^ 32"
    proof -
      from f [OF p] have "0 < ?n" by simp
      with that have "Uint32_bits ?n = ?n" by (simp add: Uint32_bits_def)
      with \<open>0 < ?n\<close> show ?thesis by (simp add: Float32_bits_0)
    qed
    with wh
    have "Float32_bits (of_int w) \<noteq> Uint32_bits w \<or> Float32_bits (of_int h) \<noteq> Uint32_bits h
        \<or> Float32_bits 0 \<noteq> Uint32_bits ?n"
      using c [of w] c [of h] by auto
    with u [OF p] a [OF p, of True] show ?thesis by auto
  qed
  from a b c u d show ?thesis by blast
qed

theorem ui_buffer_encodings_witness:
  "progressive Part007 \<and> progressing (boot 512 512 True)
   \<and> (0::int) \<le> 512 \<and> (512::int) < 2 ^ 32 \<and> (512::int) \<noteq> 1318926965
   \<and> uniformUIBuffer (main_setup Part007 (boot 512 512 True)) = [1140850688, 1140850688, 0]
   \<and> uniformUIBuffer (progress (boot 512 512 True)) = [512, 512, 1]
   \<and> Float32_bits (of_int 512) \<noteq> Uint32_bits 512
   \<and> uniformUIBuffer (run Part007 512 512 True [] [AnimationFrame]) = [512, 512, 2]"
proof -
  have p: "progressive Part007" "progressing (boot 512 512 True)" by (simp_all add: boot_def)
  have f: "Float32_bits 512 = 1140850688" "Float32_bits 0 = 0" by code_simp+
  have u: "Uint32_bits 512 = 512" "Uint32_bits 1 = 1" "Uint32_bits 2 = 2"
    by (simp_all add: Uint32_bits_def)
  have fr: "frame (run Part007 512 512 True [] [AnimationFrame]) = 2"
    by (simp add: run_def steps_def main_body_def main_setup_def boot_def animate_def
        onReadComplete_def render_def progress_def or_abort_def)
  from ui_buffer_encodings [of Part007 512 512 True "boot 512 512 True" 512 "[]" "[AnimationFrame]"]
    p f u fr
  show ?thesis by (simp add: boot_def)
qed

section \<open>computeJitters: proofs\<close>

text \<open>Rounding is monotone, the loop counters are numbers of the format and
  \<open>Math.random()\<close> is below 1, so every number assigned lies between the roundings of the
  two ends.\<close>

lemma jitter_value_bounds:
  assumes r: "0 \<le> r" "r < 1" and j: "j < n" and n: "n \<le> 2 ^ 53" and p: "0 < p"
    and h: "js_mul (Finite p) (Finite (1 / 2)) = Finite h"
    and t: "jitter_greatest (Finite p) (int n) = Finite t"
  shows "\<exists>x. jitter_value r j (js_div (Finite p) (of_int (int n))) (Finite p) = Finite x
              \<and> - h \<le> x \<and> x \<le> t"
proof -
  from j have n0: "(of_int (int n) :: num) \<noteq> 0" by simp
  then have step: "js_div (Finite p) (of_int (int n)) = to_binary64 (p / of_nat n)" by simp
  obtain s where s: "to_binary64 (p / of_nat n) = Finite s"
    using t unfolding jitter_greatest_def step by (cases "to_binary64 (p / of_nat n)") simp_all
  obtain M where M: "to_binary64 (of_nat n * s) = Finite M"
    using t unfolding jitter_greatest_def step s
    by (cases "to_binary64 (of_nat n * s)") simp_all
  from t have T: "to_binary64 (M - h) = Finite t"
    unfolding jitter_greatest_def step s h using M by simp
  from h have H: "to_binary64 (p * (1 / 2)) = Finite h" by simp
  from j p have "0 \<le> p / of_nat n" by simp
  from to_binary64_between [OF to_binary64_0 s this order_refl] s have s0: "0 \<le> s" by auto
  from j n have "j \<le> 2 ^ 53" "Suc j \<le> 2 ^ 53" by simp_all
  from to_binary64_between [OF to_binary64_of_nat [OF this(1)] to_binary64_of_nat [OF this(2)],
      of "r + of_nat j"] r
  obtain a where a: "to_binary64 (r + of_nat j) = Finite a" "of_nat j \<le> a" "a \<le> of_nat (Suc j)"
    by auto
  from j have "(of_nat (Suc j) :: num) \<le> of_nat n" by (simp only: of_nat_le_iff)
  with a(3) have an: "a \<le> of_nat n" by linarith
  from a(2) have a0: "0 \<le> a" by (meson of_nat_0_le_iff order_trans)
  from a0 s0 have "0 \<le> a * s" by simp
  moreover from an s0 have "a * s \<le> of_nat n * s" by (rule mult_right_mono)
  ultimately obtain m where m: "to_binary64 (a * s) = Finite m" "0 \<le> m" "m \<le> M"
    using to_binary64_between [OF to_binary64_0 M, of "a * s"] by auto
  from m(2,3) have "- h \<le> m - h" "m - h \<le> M - h" by simp_all
  from to_binary64_between [OF to_binary64_idem(2) [OF H] T this]
  obtain x where x: "to_binary64 (m - h) = Finite x" "- h \<le> x" "x \<le> t" by auto
  have "jitter_value r j (js_div (Finite p) (of_int (int n))) (Finite p) = Finite x"
    unfolding jitter_value_def step s h by (simp add: a(1) m(1) x(1))
  with x(2,3) show ?thesis by simp
qed

lemma store_draws: "draws (store k v s) = draws s"
  by (simp add: store_def)

lemma store_writes_inv:
  assumes inv: "writes_inv a entry m s" and v: "v = entry m"
  shows "writes_inv a entry (Suc m) (store m v s)"
proof -
  from inv have ws: "writes s = map (\<lambda>k. (k, entry k)) [0..<m]"
    and len: "length (arr s) = length a"
    and old: "\<forall>k < length a. arr s ! k = (if k < m then Float32_store (entry k) else a ! k)"
    by (simp_all add: writes_inv_def)
  have "writes (store m v s) = map (\<lambda>k. (k, entry k)) [0..<Suc m]"
    by (simp add: store_def ws v)
  moreover have "length (arr (store m v s)) = length a" by (simp add: store_def len)
  moreover have "arr (store m v s) ! k = (if k < Suc m then Float32_store (entry k) else a ! k)"
    if "k < length a" for k
  proof (cases "k = m")
    case True
    with that len show ?thesis by (simp add: store_def v)
  next
    case False
    with that old show ?thesis by (simp add: store_def)
  qed
  ultimately show ?thesis by (simp add: writes_inv_def)
qed

lemma jitter_entry_cell:
  assumes "j < n"
  shows "jitter_entry rnd ps (int n) (2 * (i * n + j))
       = jitter_value (rnd (2 * (i * n + j))) j (js_div ps (of_int (int n))) ps"
    and "jitter_entry rnd ps (int n) (Suc (2 * (i * n + j)))
       = jitter_value (rnd (Suc (2 * (i * n + j)))) i (js_div ps (of_int (int n))) ps"
  using assms by (simp_all add: jitter_entry_def)

lemma jitter_cell_inv:
  assumes inv: "writes_inv a (jitter_entry rnd ps (int n)) (2 * (i * n + j)) s"
    and dr: "draws s = 2 * (i * n + j)" and j: "j < n"
  shows "writes_inv a (jitter_entry rnd ps (int n)) (2 * (i * n + Suc j))
           (jitter_cell rnd ps (int n) i j s)
       \<and> draws (jitter_cell rnd ps (int n) i j s) = 2 * (i * n + Suc j)"
proof -
  let ?m = "2 * (i * n + j)"
  let ?step = "js_div ps (of_int (int n))"
  let ?v1 = "jitter_value (rnd ?m) j ?step ps"
  let ?v2 = "jitter_value (rnd (Suc ?m)) i ?step ps"
  note e = jitter_entry_cell [OF j, of rnd ps i]
  from store_writes_inv [OF inv e(1) [symmetric]]
  have i1: "writes_inv a (jitter_entry rnd ps (int n)) (Suc ?m) (store ?m ?v1 s)" .
  from store_writes_inv [OF i1 e(2) [symmetric]]
  have i2: "writes_inv a (jitter_entry rnd ps (int n)) (Suc (Suc ?m))
      (store (Suc ?m) ?v2 (store ?m ?v1 s))" .
  have idx: "(i * nat (int n) + j) * 2 = ?m" by simp
  have cell: "jitter_cell rnd ps (int n) i j s
      = (store (Suc ?m) ?v2 (store ?m ?v1 s))\<lparr>draws := draws s + 2\<rparr>"
    unfolding jitter_cell_def Let_def idx by (simp add: dr)
  have m2: "2 * (i * n + Suc j) = Suc (Suc ?m)" by simp
  from i2 have "writes_inv a (jitter_entry rnd ps (int n)) (Suc (Suc ?m))
      ((store (Suc ?m) ?v2 (store ?m ?v1 s))\<lparr>draws := draws s + 2\<rparr>)"
    by (simp add: writes_inv_def)
  with dr show ?thesis unfolding cell m2 by simp
qed

lemma jitter_row_inv:
  shows "J \<le> n \<Longrightarrow> writes_inv a (jitter_entry rnd ps (int n)) (2 * (i * n)) s \<Longrightarrow>
    draws s = 2 * (i * n) \<Longrightarrow>
    writes_inv a (jitter_entry rnd ps (int n)) (2 * (i * n + J))
      (fold (jitter_cell rnd ps (int n) i) [0..<J] s)
    \<and> draws (fold (jitter_cell rnd ps (int n) i) [0..<J] s) = 2 * (i * n + J)"
proof (induction J)
  case 0
  then show ?case by simp
next
  case (Suc J)
  let ?s = "fold (jitter_cell rnd ps (int n) i) [0..<J] s"
  from Suc have "writes_inv a (jitter_entry rnd ps (int n)) (2 * (i * n + J)) ?s"
    and "draws ?s = 2 * (i * n + J)" and "J < n" by simp_all
  from jitter_cell_inv [OF this] show ?case by simp
qed

lemma jitter_rows_inv:
  assumes s: "writes_inv a (jitter_entry rnd ps (int n)) 0 s" "draws s = 0"
  shows "I \<le> n \<Longrightarrow>
    writes_inv a (jitter_entry rnd ps (int n)) (2 * (I * n))
      (fold (\<lambda>i. fold (jitter_cell rnd ps (int n) i) [0..<n]) [0..<I] s)
    \<and> draws (fold (\<lambda>i. fold (jitter_cell rnd ps (int n) i) [0..<n]) [0..<I] s) = 2 * (I * n)"
proof (induction I)
  case 0
  with s show ?case by simp
next
  case (Suc I)
  let ?s = "fold (\<lambda>i. fold (jitter_cell rnd ps (int n) i) [0..<n]) [0..<I] s"
  from Suc have "writes_inv a (jitter_entry rnd ps (int n)) (2 * (I * n)) ?s"
    and "draws ?s = 2 * (I * n)" by simp_all
  from jitter_row_inv [OF order_refl this] show ?case
    by (simp add: algebra_simps)
qed

lemma computeJitters_entries:
  assumes "2 \<le> subdivs"
  shows "writes_inv jitter (jitter_entry rnd pixelSize subdivs) (2 * (nat subdivs * nat subdivs))
           (computeJitters rnd jitter pixelSize subdivs)"
proof -
  let ?s0 = "\<lparr>arr = jitter, draws = 0, writes = []\<rparr>"
  from assms have n: "int (nat subdivs) = subdivs" by simp
  have "writes_inv jitter (jitter_entry rnd pixelSize (int (nat subdivs))) 0 ?s0" "draws ?s0 = 0"
    by (simp_all add: writes_inv_def)
  from jitter_rows_inv [OF this order_refl] assms
  show ?thesis by (simp add: computeJitters_def n)
qed

lemma jitter_entry_bounds:
  assumes s: "2 \<le> subdivs" "subdivs \<le> 2 ^ 26" and p: "0 < p"
    and rnd: "\<forall>k. 0 \<le> rnd k \<and> rnd k < 1"
    and h: "js_mul (Finite p) (Finite (1 / 2)) = Finite h"
    and t: "jitter_greatest (Finite p) subdivs = Finite t"
    and k: "k < 2 * (nat subdivs * nat subdivs)"
  shows "\<exists>x. jitter_entry rnd (Finite p) subdivs k = Finite x \<and> - h \<le> x \<and> x \<le> t"
proof -
  define n where "n = nat subdivs"
  from s have sn: "subdivs = int n" and n0: "0 < n" by (simp_all add: n_def)
  from s(2) have "int n \<le> 2 ^ 26" by (simp add: sn)
  also have "(2::int) ^ 26 \<le> 2 ^ 53" by (rule power_increasing) simp_all
  finally have "int n \<le> int (2 ^ 53)" by simp
  then have n53: "n \<le> 2 ^ 53" by (simp only: of_nat_le_iff)
  from k have "k div 2 < n * n" by (simp add: n_def)
  then have d: "(k div 2) div n < n" by (simp add: less_mult_imp_div_less)
  from n0 have m: "(k div 2) mod n < n" by simp
  define j where "j = (if even k then (k div 2) mod n else (k div 2) div n)"
  from d m have j: "j < n" by (simp add: j_def)
  from rnd have r: "0 \<le> rnd k" "rnd k < 1" by simp_all
  have "jitter_entry rnd (Finite p) subdivs k
      = jitter_value (rnd k) j (js_div (Finite p) (of_int (int n))) (Finite p)"
    by (simp only: jitter_entry_def sn j_def nat_int)
  with jitter_value_bounds [OF r j n53 p h t [unfolded sn]]
  show ?thesis by (simp only:)
qed

text \<open>With \<open>pixelSize\<close> between \<open>2^-990\<close> and \<open>2^990\<close> no operation overflows or underflows,
  each rounding moves its result by at most the fraction \<open>2^-53\<close>, and the two ends of the
  interval are within the fraction \<open>2^-50\<close> of \<open>pixelSize / 2\<close>.\<close>

lemma jitter_greatest_close:
  fixes p :: num
  assumes n: "2 \<le> n" "n \<le> 2 ^ 26" and p: "pow2 (- 990) \<le> p" "p \<le> pow2 990"
  shows "\<exists>h t. js_mul (Finite p) (Finite (1 / 2)) = Finite h
            \<and> jitter_greatest (Finite p) (int n) = Finite t
            \<and> 0 \<le> h \<and> h \<le> p / 2 * (1 + 1 / 2 ^ 50) \<and> t \<le> p / 2 * (1 + 1 / 2 ^ 50)"
proof -
  have A: "pow2 (- 1022) \<le> pow2 (- 1016)" "pow2 (- 1022) \<le> pow2 (- 992)"
    "pow2 992 \<le> pow2 1023"
    by (rule pow2_mono; simp)+
  have e1: "pow2 (- 1016) * 2 ^ 26 = pow2 (- 990)" using pow2_scale [of "- 990" 26] by simp
  have e2: "pow2 (- 992) * 4 = pow2 (- 990)" using pow2_scale [of "- 990" 2] by simp
  have e3: "pow2 990 * 4 = pow2 992" using pow2_scale [of 992 2] by simp
  from p(1) pow2_pos [of "- 990"] have ppos: "0 < p" by linarith
  from n have "(of_nat 2 :: num) \<le> of_nat n" "(of_nat n :: num) \<le> of_nat (2 ^ 26)"
    by (simp_all only: of_nat_le_iff)
  then have nn: "(2 :: num) \<le> of_nat n" "(of_nat n :: num) \<le> 2 ^ 26" by simp_all
  then have npos: "(0 :: num) < of_nat n" by linarith
  define x0 where "x0 = p / of_nat n"
  from npos have nx: "of_nat n * x0 = p" by (simp add: x0_def)
  have x0pos: "0 < x0" using ppos npos by (simp add: x0_def)
  from nn(2) x0pos have "of_nat n * x0 \<le> 2 ^ 26 * x0" by (intro mult_right_mono) simp_all
  with nx p(1) e1 have x0lo: "pow2 (- 1016) \<le> x0" by simp
  from nn(1) x0pos have "2 * x0 \<le> of_nat n * x0" by (intro mult_right_mono) simp_all
  with nx have x0hi: "2 * x0 \<le> p" by simp
  from x0lo A(1) have "pow2 (- 1022) \<le> x0" by linarith
  moreover from x0hi x0pos p(2) e3 A(3) pow2_pos [of 990] have "x0 \<le> pow2 1023" by linarith
  ultimately obtain s where s: "to_binary64 x0 = Finite s"
    "x0 * (1 - 1 / 2 ^ 53) \<le> s" "s \<le> x0 * (1 + 1 / 2 ^ 53)"
    using to_binary64_relative [of x0] by blast
  have "p * (1 - 1 / 2 ^ 53) = of_nat n * (x0 * (1 - 1 / 2 ^ 53))"
    by (simp only: mult.assoc [symmetric] nx)
  also from s(2) npos have "\<dots> \<le> of_nat n * s"
    by (intro mult_left_mono) simp_all
  finally have y1: "p * (1 - 1 / 2 ^ 53) \<le> of_nat n * s" .
  from s(3) npos have "of_nat n * s \<le> of_nat n * (x0 * (1 + 1 / 2 ^ 53))"
    by (intro mult_left_mono) simp_all
  also have "\<dots> = p * (1 + 1 / 2 ^ 53)"
    by (simp only: mult.assoc [symmetric] nx)
  finally have y2: "of_nat n * s \<le> p * (1 + 1 / 2 ^ 53)" .
  note y = y1 y2
  from y(1) p(1) e2 A(2) pow2_pos [of "- 992"] have "pow2 (- 1022) \<le> of_nat n * s" by simp
  moreover from y(2) p(2) e3 A(3) pow2_pos [of 990] have "of_nat n * s \<le> pow2 1023" by simp
  ultimately obtain M where M: "to_binary64 (of_nat n * s) = Finite M"
    "of_nat n * s * (1 - 1 / 2 ^ 53) \<le> M" "M \<le> of_nat n * s * (1 + 1 / 2 ^ 53)"
    using to_binary64_relative [of "of_nat n * s"] by blast
  from M(2) y(1) ppos have M0: "0 \<le> M" by simp
  from M(3) y(2) have Mhi: "M \<le> p * (1 + 1 / 2 ^ 53) * (1 + 1 / 2 ^ 53)" by simp
  from p(1) e2 A(2) pow2_pos [of "- 992"] have "pow2 (- 1022) \<le> p * (1 / 2)" by simp
  moreover from p(2) e3 A(3) pow2_pos [of 990] have "p * (1 / 2) \<le> pow2 1023" by simp
  ultimately obtain h where h: "to_binary64 (p * (1 / 2)) = Finite h"
    "p * (1 / 2) * (1 - 1 / 2 ^ 53) \<le> h" "h \<le> p * (1 / 2) * (1 + 1 / 2 ^ 53)"
    using to_binary64_relative [of "p * (1 / 2)"] by blast
  from h(2) ppos have h0: "0 \<le> h" by simp
  define D where "D = p * (1 + 1 / 2 ^ 53) * (1 + 1 / 2 ^ 53) - p * (1 / 2) * (1 - 1 / 2 ^ 53)"
  from Mhi h(2) have dD: "M - h \<le> D" by (simp add: D_def)
  from ppos p(1) e2 A(2) pow2_pos [of "- 992"] have "pow2 (- 1022) \<le> D" by (simp add: D_def)
  moreover from ppos p(2) e3 A(3) pow2_pos [of 990] have "D \<le> pow2 1023" by (simp add: D_def)
  ultimately obtain T where T: "to_binary64 D = Finite T" "T \<le> D * (1 + 1 / 2 ^ 53)"
    using to_binary64_relative [of D] by blast
  have lo: "to_binary64 (- pow2 990) = Finite (- pow2 990)"
    by (rule to_binary64_pow2) simp_all
  from M0 h(3) p(2) ppos have "- pow2 990 \<le> M - h" by simp
  from to_binary64_between [OF lo T(1) this dD]
  obtain t where t: "to_binary64 (M - h) = Finite t" "t \<le> T" by blast
  from ppos have "D * (1 + 1 / 2 ^ 53) \<le> p / 2 * (1 + 1 / 2 ^ 50)" by (simp add: D_def)
  with t(2) T(2) have tb: "t \<le> p / 2 * (1 + 1 / 2 ^ 50)" by linarith
  from h(3) ppos have hb: "h \<le> p / 2 * (1 + 1 / 2 ^ 50)" by simp
  from n have n0: "(of_int (int n) :: num) \<noteq> 0" by simp
  have "js_mul (Finite p) (Finite (1 / 2)) = Finite h" using h(1) by simp
  moreover have "jitter_greatest (Finite p) (int n) = Finite t"
    using n0 s(1) M(1) h(1) t(1) by (simp add: jitter_greatest_def x0_def)
  ultimately show ?thesis using h0 hb tb by blast
qed

lemma jitter_entry_close:
  assumes s: "2 \<le> subdivs" "subdivs \<le> 2 ^ 26" and p: "pow2 (- 990) \<le> p" "p \<le> pow2 990"
    and rnd: "\<forall>k. 0 \<le> rnd k \<and> rnd k < 1"
    and k: "k < 2 * (nat subdivs * nat subdivs)"
  shows "\<exists>x. jitter_entry rnd (Finite p) subdivs k = Finite x \<and> \<bar>x\<bar> \<le> p / 2 * (1 + 1 / 2 ^ 50)"
proof -
  from s have n: "2 \<le> nat subdivs" "nat subdivs \<le> 2 ^ 26" "int (nat subdivs) = subdivs"
    by (simp_all add: nat_le_iff)
  from jitter_greatest_close [OF n(1,2) p]
  obtain h t where ht: "js_mul (Finite p) (Finite (1 / 2)) = Finite h"
    "jitter_greatest (Finite p) subdivs = Finite t"
    "0 \<le> h" "h \<le> p / 2 * (1 + 1 / 2 ^ 50)" "t \<le> p / 2 * (1 + 1 / 2 ^ 50)"
    unfolding n(3) by blast
  from p(1) pow2_pos [of "- 990"] have "0 < p" by linarith
  from jitter_entry_bounds [OF s this rnd ht(1,2) k]
  obtain x where x: "jitter_entry rnd (Finite p) subdivs k = Finite x" "- h \<le> x" "x \<le> t"
    by blast
  from x(2,3) ht(4,5) have "\<bar>x\<bar> \<le> p / 2 * (1 + 1 / 2 ^ 50)" by linarith
  with x(1) show ?thesis by blast
qed

lemma Float32_store_0: "Float32_store (Finite 0) = Finite 0"
  by (simp add: fround_def in_range_def)

lemma writes_inv_nth:
  assumes "writes_inv a entry m s" and "k < m"
  shows "writes s ! k = (k, entry k)"
    and "k < length a \<Longrightarrow> arr s ! k = Float32_store (entry k)"
  using assms by (simp_all add: writes_inv_def del: upt_Suc)

text \<open>
  C9. As stated the claim fails: a number written can be \<open>pixelSize / 2\<close> and can exceed
  it. On a canvas 512 pixels high \<open>pixelSize\<close> is \<open>1/512\<close>; with \<open>subdivs = 2\<close> and
  \<open>Math.random()\<close> returning \<open>1 - 2^-53\<close>, the sum \<open>Math.random() + 1\<close> rounds to 2 and the
  number assigned to index 2 is \<open>pixelSize / 2\<close>, which the array stores as it is. On a
  canvas 53 pixels high \<open>pixelSize\<close> is the binary64 number nearest to \<open>1/53\<close>; with
  \<open>subdivs = 9\<close> and \<open>Math.random()\<close> returning \<open>1 - 2^-52\<close>, the number assigned to index
  16 and the number the array stores there are both above \<open>pixelSize / 2\<close>.
\<close>

theorem computeJitters_stored_counterexample:
  "writes (computeJitters (\<lambda>k. 1 - 1 / 2 ^ 53) (replicate 400 (Finite 0)) (Finite (1 / 512)) 2) ! 2
       = (2, Finite ((1 / 512) / 2))
   \<and> arr (computeJitters (\<lambda>k. 1 - 1 / 2 ^ 53) (replicate 400 (Finite 0)) (Finite (1 / 512)) 2) ! 2
       = Finite ((1 / 512) / 2)
   \<and> \<not> ((1 / 512) / 2 < (1 / 512 :: num) / 2)
   \<and> js_div (Finite 1) 53 = Finite (5438308983994561 / 2 ^ 58)
   \<and> writes (computeJitters (\<lambda>k. 1 - 1 / 2 ^ 52) (replicate 400 (Finite 0))
         (Finite (5438308983994561 / 2 ^ 58)) 9) ! 16
       = (16, Finite (5438308983994563 / 2 ^ 59))
   \<and> arr (computeJitters (\<lambda>k. 1 - 1 / 2 ^ 52) (replicate 400 (Finite 0))
         (Finite (5438308983994561 / 2 ^ 58)) 9) ! 16
       = Finite (1266205 / 2 ^ 27)
   \<and> \<not> (5438308983994563 / 2 ^ 59 < (5438308983994561 / 2 ^ 58 :: num) / 2)
   \<and> \<not> (1266205 / 2 ^ 27 < (5438308983994561 / 2 ^ 58 :: num) / 2)"
proof -
  have e1: "jitter_entry (\<lambda>k. 1 - 1 / 2 ^ 53) (Finite (1 / 512)) 2 2 = Finite ((1 / 512) / 2)"
    by code_simp
  have f1: "Float32_store (Finite ((1 / 512) / 2)) = Finite ((1 / 512) / 2)"
    by code_simp
  have p: "js_div (Finite 1) 53 = Finite (5438308983994561 / 2 ^ 58)"
    by code_simp
  have e2: "jitter_entry (\<lambda>k. 1 - 1 / 2 ^ 52) (Finite (5438308983994561 / 2 ^ 58)) 9 16
      = Finite (5438308983994563 / 2 ^ 59)"
    by code_simp
  have f2: "Float32_store (Finite (5438308983994563 / 2 ^ 59)) = Finite (1266205 / 2 ^ 27)"
    by code_simp
  have k: "(2::nat) < 2 * (nat 2 * nat 2)" "(2::nat) < length (replicate 400 (Finite 0))"
    "(16::nat) < 2 * (nat 9 * nat 9)" "(16::nat) < length (replicate 400 (Finite 0))"
    by simp_all
  have w1: "writes_inv (replicate 400 (Finite 0)) (jitter_entry (\<lambda>k. 1 - 1 / 2 ^ 53) (Finite (1 / 512)) 2)
      (2 * (nat 2 * nat 2))
      (computeJitters (\<lambda>k. 1 - 1 / 2 ^ 53) (replicate 400 (Finite 0)) (Finite (1 / 512)) 2)"
    by (rule computeJitters_entries) simp
  have w2: "writes_inv (replicate 400 (Finite 0))
      (jitter_entry (\<lambda>k. 1 - 1 / 2 ^ 52) (Finite (5438308983994561 / 2 ^ 58)) 9)
      (2 * (nat 9 * nat 9))
      (computeJitters (\<lambda>k. 1 - 1 / 2 ^ 52) (replicate 400 (Finite 0))
         (Finite (5438308983994561 / 2 ^ 58)) 9)"
    by (rule computeJitters_entries) simp
  note a = writes_inv_nth(1) [OF w1 k(1), unfolded e1]
    writes_inv_nth(2) [OF w1 k(1) k(2), unfolded e1 f1]
    writes_inv_nth(1) [OF w2 k(3), unfolded e2]
    writes_inv_nth(2) [OF w2 k(3) k(4), unfolded e2 f2]
  have "\<not> ((1 / 512) / 2 < (1 / 512 :: num) / 2)"
    "\<not> (5438308983994563 / 2 ^ 59 < (5438308983994561 / 2 ^ 58 :: num) / 2)"
    "\<not> (1266205 / 2 ^ 27 < (5438308983994561 / 2 ^ 58 :: num) / 2)"
    by simp_all
  with a p show ?thesis by (intro conjI)
qed

text \<open>
  C9, amended. For an integer \<open>subdivs\<close> from 2 to \<open>2^26\<close> (where the index arithmetic of
  the source is exact), \<open>computeJitters\<close> assigns to the indices 0 to
  \<open>2 * subdivs^2 - 1\<close>, each once and in this order. The number assigned to index
  \<open>2 * (i * subdivs + j)\<close> is \<open>(Math.random() + j) * step - pixelSize * 0.5\<close> and the number
  assigned to the next index is \<open>(Math.random() + i) * step - pixelSize * 0.5\<close>, every
  operation rounded to binary64. The array keeps its length, holds the binary32 rounding
  of the number assigned at each of these indices it has, and is unchanged elsewhere.
  For a finite \<open>pixelSize > 0\<close> and \<open>Math.random()\<close> in \<open>[0, 1)\<close>, every number assigned is
  finite and lies in the closed interval from \<open>- (pixelSize * 0.5)\<close> to
  \<open>subdivs * step - pixelSize * 0.5\<close>, as binary64 arithmetic gives these two numbers,
  provided the second is finite; for \<open>pixelSize\<close> from \<open>2^-990\<close> to \<open>2^990\<close> it is finite and
  its magnitude is at most \<open>(pixelSize / 2) * (1 + 2^-50)\<close>. For \<open>subdivs < 2\<close> the function
  assigns 0 to the indices 0 and 1 only.
\<close>

theorem computeJitters_writes:
  "(2 \<le> subdivs \<and> subdivs \<le> 2 ^ 26 \<longrightarrow>
      writes (computeJitters rnd jitter pixelSize subdivs)
        = map (\<lambda>k. (k, jitter_entry rnd pixelSize subdivs k)) [0..<2 * (nat subdivs * nat subdivs)]
      \<and> length (arr (computeJitters rnd jitter pixelSize subdivs)) = length jitter
      \<and> (\<forall>k < length jitter.
            arr (computeJitters rnd jitter pixelSize subdivs) ! k
              = (if k < 2 * (nat subdivs * nat subdivs)
                 then Float32_store (jitter_entry rnd pixelSize subdivs k)
                 else jitter ! k))
      \<and> (0 < p \<and> (\<forall>k. 0 \<le> rnd k \<and> rnd k < 1)
           \<and> js_mul (Finite p) (Finite (1 / 2)) = Finite h
           \<and> jitter_greatest (Finite p) subdivs = Finite t \<longrightarrow>
          (\<forall>k < 2 * (nat subdivs * nat subdivs).
             \<exists>x. jitter_entry rnd (Finite p) subdivs k = Finite x \<and> - h \<le> x \<and> x \<le> t))
      \<and> (pow2 (- 990) \<le> p \<and> p \<le> pow2 990 \<and> (\<forall>k. 0 \<le> rnd k \<and> rnd k < 1) \<longrightarrow>
          (\<forall>k < 2 * (nat subdivs * nat subdivs).
             \<exists>x. jitter_entry rnd (Finite p) subdivs k = Finite x
                  \<and> \<bar>x\<bar> \<le> p / 2 * (1 + 1 / 2 ^ 50))))
   \<and> (subdivs < 2 \<longrightarrow>
        writes (computeJitters rnd jitter pixelSize subdivs) = [(0, Finite 0), (1, Finite 0)]
        \<and> arr (computeJitters rnd jitter pixelSize subdivs) = jitter[0 := Finite 0, 1 := Finite 0])"
proof -
  have small: "writes (computeJitters rnd jitter pixelSize subdivs) = [(0, Finite 0), (1, Finite 0)]
        \<and> arr (computeJitters rnd jitter pixelSize subdivs) = jitter[0 := Finite 0, 1 := Finite 0]"
    if "subdivs < 2"
    using that by (simp add: computeJitters_def store_def Float32_store_0 del: Float32_store.simps)
  from computeJitters_entries [of subdivs jitter rnd pixelSize]
    jitter_entry_bounds [of subdivs p rnd h t] jitter_entry_close [of subdivs p rnd] small
  show ?thesis unfolding writes_inv_def by blast
qed

theorem computeJitters_writes_witness:
  "(2::int) \<le> 2 \<and> (2::int) \<le> 2 ^ 26 \<and> (0::num) < 1 / 512 \<and> (0::num) \<le> 1 / 2 \<and> (1 / 2 :: num) < 1
   \<and> js_mul (Finite (1 / 512)) (Finite (1 / 2)) = Finite (1 / 1024)
   \<and> jitter_greatest (Finite (1 / 512)) 2 = Finite (1 / 1024)
   \<and> pow2 (- 990) \<le> 1 / 512 \<and> 1 / 512 \<le> pow2 990
   \<and> map fst (writes (computeJitters (\<lambda>k. 1 / 2) (replicate 10 (Finite 7)) (Finite (1 / 512)) 2))
       = [0, 1, 2, 3, 4, 5, 6, 7]
   \<and> length (arr (computeJitters (\<lambda>k. 1 / 2) (replicate 10 (Finite 7)) (Finite (1 / 512)) 2)) = 10
   \<and> jitter_entry (\<lambda>k. 1 / 2) (Finite (1 / 512)) 2 3 \<noteq> NotFinite
   \<and> (1::int) < 2
   \<and> writes (computeJitters (\<lambda>k. 1 / 2) (replicate 10 (Finite 7)) (Finite (1 / 512)) 1)
       = [(0, Finite 0), (1, Finite 0)]
   \<and> arr (computeJitters (\<lambda>k. 1 / 2) (replicate 10 (Finite 7)) (Finite (1 / 512)) 1)
       = [Finite 0, Finite 0, Finite 7, Finite 7, Finite 7, Finite 7, Finite 7, Finite 7,
          Finite 7, Finite 7]"
proof -
  have h: "js_mul (Finite (1 / 512)) (Finite (1 / 2)) = Finite (1 / 1024)" by code_simp
  have t: "jitter_greatest (Finite (1 / 512)) 2 = Finite (1 / 1024)" by code_simp
  have "pow2 (- 990) \<le> pow2 (- 9)" "pow2 9 \<le> pow2 990" by (rule pow2_mono; simp)+
  moreover have "pow2 (- 9) = 1 / 512" "pow2 9 = 512" by (simp_all add: pow2_def)
  ultimately have q: "pow2 (- 990) \<le> 1 / 512" "1 / 512 \<le> pow2 990" by simp_all
  have u: "[0..<2 * (nat 2 * nat 2)] = [0, 1, 2, 3, 4, 5, 6, 7]" by (simp add: upt_rec)
  have r: "(replicate 10 (Finite 7))[0 := Finite 0, 1 := Finite 0]
      = [Finite 0, Finite 0, Finite 7, Finite 7, Finite 7, Finite 7, Finite 7, Finite 7,
          Finite 7, Finite 7]"
    by (simp add: numeral_eq_Suc)
  note T = computeJitters_writes [of 2 "\<lambda>k. 1 / 2" "replicate 10 (Finite 7)" "Finite (1 / 512)"
      "1 / 512" "1 / 1024" "1 / 1024"]
  from T h t have "\<forall>k < 2 * (nat 2 * nat 2).
      \<exists>x. jitter_entry (\<lambda>k. 1 / 2) (Finite (1 / 512)) 2 k = Finite x \<and> - (1 / 1024) \<le> x \<and> x \<le> 1 / 1024"
    by simp
  then have "\<exists>x. jitter_entry (\<lambda>k. 1 / 2) (Finite (1 / 512)) 2 3 = Finite x
      \<and> - (1 / 1024) \<le> x \<and> x \<le> 1 / 1024" by simp
  then have b: "jitter_entry (\<lambda>k. 1 / 2) (Finite (1 / 512)) 2 3 \<noteq> NotFinite" by auto
  from T have "map fst (writes (computeJitters (\<lambda>k. 1 / 2) (replicate 10 (Finite 7)) (Finite (1 / 512)) 2))
       = [0..<2 * (nat 2 * nat 2)]
    \<and> length (arr (computeJitters (\<lambda>k. 1 / 2) (replicate 10 (Finite 7)) (Finite (1 / 512)) 2)) = 10"
    by (simp add: comp_def del: upt_Suc)
  moreover from computeJitters_writes [of 1 "\<lambda>k. 1 / 2" "replicate 10 (Finite 7)" "Finite (1 / 512)"]
  have "writes (computeJitters (\<lambda>k. 1 / 2) (replicate 10 (Finite 7)) (Finite (1 / 512)) 1)
       = [(0, Finite 0), (1, Finite 0)]
   \<and> arr (computeJitters (\<lambda>k. 1 / 2) (replicate 10 (Finite 7)) (Finite (1 / 512)) 1)
       = (replicate 10 (Finite 7))[0 := Finite 0, 1 := Finite 0]"
    by simp
  ultimately show ?thesis using h t u r b q by simp
qed

end
